theory Spec2Isabelle
  imports Main
begin

section \<open>The span writer of storage/clickhousespanstore/writer.go\<close>

text \<open>
  The file holds three pieces of code that run concurrently: \<open>WriteSpan\<close>, called by any
  number of producers; \<open>backgroundWriter\<close>, one goroutine started by \<open>NewSpanWriter\<close>;
  and \<open>Close\<close>. They meet at the channel \<open>w.spans\<close> (buffered, capacity \<open>w.size\<close>), the
  unbuffered channel \<open>w.finish\<close> and the wait group \<open>w.done\<close>.

  The model is an interleaving semantics. One state holds the fields of the
  \<open>SpanWriter\<close>, the local variables and the program counter of the background goroutine,
  the program counter of the goroutine that calls \<open>Close\<close>, the process-wide metrics and
  the clock. An action is one atomic step of one goroutine; a step that cannot be taken
  now (a send on a full channel, a \<open>Wait\<close> on a non-zero counter) yields \<open>None\<close>.
  Program counters are named after the line of \<open>writer.go\<close> the goroutine is about to run.

  Left out, since nothing in this file reads them back: the calls of the logger, and what
  the worker pool does with a batch. The pool is seen through the calls made on it.
\<close>

subsection \<open>Data\<close>

type_synonym time = int
  \<comment> \<open>an instant of the monotonic clock, in nanoseconds\<close>

type_synonym Duration = int
  \<comment> \<open>\<open>time.Duration\<close>: nanoseconds, an \<open>int64\<close>\<close>

type_synonym Encoding = string

definition EncodingJSON :: Encoding where
  "EncodingJSON = ''json''"

definition EncodingProto :: Encoding where
  "EncodingProto = ''protobuf''"

datatype error = Error string

datatype panic = MakeChanSizeOutOfRange | AlreadyRegistered string

text \<open>\<open>type SpanAndTenant struct { span *model.Span; tenant string }\<close>; the span is opaque.\<close>

datatype 'sp SpanAndTenant = SpanAndTenant (span: 'sp) (tenant: string)

text \<open>
  \<open>WorkerParams\<close> as \<open>NewSpanWriter\<close> fills it. The logger and the database handle have no
  state that the writer reads and are left out. The field \<open>tenant\<close> of the source is
  \<open>params_tenant\<close> here, since \<open>tenant\<close> is the field of \<open>SpanAndTenant\<close>.
\<close>

record WorkerParams =
  indexTable :: string
  spansTable :: string
  params_tenant :: string
  encoding :: Encoding
  delay :: Duration

text \<open>
  A Go slice: its elements and its capacity. \<open>append\<close> writes in place while the length
  is below the capacity; beyond it the runtime allocates a larger array, whose capacity
  the runtime's \<open>growslice\<close> decides. That function is not part of this repository and
  is a parameter \<open>g\<close> (old capacity, needed length) of the model.
\<close>

record 'a slice =
  elems :: "'a list"
  cap :: nat

definition make_slice :: "int \<Rightarrow> 'a slice" where
  "make_slice c = \<lparr>elems = [], cap = nat c\<rparr>"

definition append_slice :: "(nat \<Rightarrow> nat \<Rightarrow> nat) \<Rightarrow> 'a slice \<Rightarrow> 'a \<Rightarrow> 'a slice" where
  "append_slice g b x =
     (if length (elems b) < cap b then b\<lparr>elems := elems b @ [x]\<rparr>
      else \<lparr>elems = elems b @ [x], cap = g (cap b) (length (elems b) + 1)\<rparr>)"

text \<open>
  The worker pool lives in another file. The writer only calls it; the model records the
  calls \<open>pool.WriteBatch(batch)\<close> and \<open>pool.Close()\<close> in the order in which they return.
\<close>

datatype 'sp pool_call = WriteBatch "'sp SpanAndTenant list" | PoolClose

text \<open>
  Process-wide state: the \<open>sync.Once\<close> named \<open>registerWriterMetrics\<close>, the names held by
  the default Prometheus registry, and the two counters.
\<close>

record process =
  registerWriterMetrics :: bool
  registry :: "string list"
  numWritesWithBatchSize :: nat
  numWritesWithFlushInterval :: nat

text \<open>Program counters of \<open>backgroundWriter\<close> and of the caller of \<open>Close\<close>.\<close>

datatype spc = L95 | L100 | L103 | L108 | L118 | L129 | L133 | L136 | L139 | L141 | Exited

datatype cpc = NotCalled | L163 | L164 | CloseReturned "error option"

record 'sp sys =
  workerParams :: WorkerParams
  w_size :: int
  spans :: "'sp SpanAndTenant list"
  w_done :: nat
  maxSpanCount :: int
  pc :: spc
  batch :: "'sp SpanAndTenant slice"
  timer :: time
  last_flush :: time
  flush :: bool
  finish :: bool
  pool :: "'sp pool_call list"
  proc :: process
  closer :: cpc
  now :: time

text \<open>
  \<open>w_size\<close> is \<open>w.size\<close>, \<open>spans\<close> the buffer of the channel \<open>w.spans\<close>, \<open>w_done\<close> the counter
  of the wait group \<open>w.done\<close>. \<open>batch\<close>, \<open>timer\<close>, \<open>last_flush\<close> (the variable \<open>last\<close>),
  \<open>flush\<close> and \<open>finish\<close> are the locals of \<open>backgroundWriter\<close>; \<open>timer\<close> is the instant at
  which the pending \<open>time.After(delay)\<close> was created. The channel \<open>w.finish\<close> is unbuffered
  and has one sender: a value is offered on it exactly while \<open>closer\<close> is \<open>L163\<close>.
\<close>

subsection \<open>Construction and metrics registration\<close>

definition metric_size :: string where
  "metric_size = ''jaeger_clickhouse_writes_with_batch_size_total''"

definition metric_interval :: string where
  "metric_interval = ''jaeger_clickhouse_writes_with_flush_interval_total''"

text \<open>\<open>prometheus.MustRegister\<close> panics when the collector's name is registered already.\<close>

definition MustRegister :: "string list \<Rightarrow> string \<Rightarrow> panic + string list" where
  "MustRegister r c = (if c \<in> set r then Inl (AlreadyRegistered c) else Inr (r @ [c]))"

text \<open>\<open>registerWriterMetrics.Do(f)\<close> runs \<open>f\<close> on the first call only.\<close>

definition registerMetrics :: "process \<Rightarrow> panic + process" where
  "registerMetrics p =
     (if registerWriterMetrics p then Inr p
      else (case MustRegister (registry p) metric_size of
              Inl e \<Rightarrow> Inl e
            | Inr r1 \<Rightarrow>
                (case MustRegister r1 metric_interval of
                   Inl e \<Rightarrow> Inl e
                 | Inr r2 \<Rightarrow> Inr (p\<lparr>registerWriterMetrics := True, registry := r2\<rparr>))))"

text \<open>
  \<open>NewSpanWriter\<close> at instant \<open>t\<close> of a process in state \<open>p\<close>. \<open>make(chan SpanAndTenant, size)\<close>
  panics on a negative size. The new goroutine has not run yet: it is at line 95, and
  its locals hold no value that is read before being assigned.
\<close>

definition NewSpanWriter ::
  "process \<Rightarrow> time \<Rightarrow> string \<Rightarrow> string \<Rightarrow> string \<Rightarrow> Encoding \<Rightarrow> Duration \<Rightarrow> int \<Rightarrow> int
     \<Rightarrow> panic + 'sp sys" where
  "NewSpanWriter p t indexTable' spansTable' tenant' encoding' delay' size' maxSpanCount' =
     (if size' < 0 then Inl MakeChanSizeOutOfRange
      else (case registerMetrics p of
              Inl e \<Rightarrow> Inl e
            | Inr p' \<Rightarrow>
                Inr \<lparr>workerParams = \<lparr>indexTable = indexTable', spansTable = spansTable',
                                     params_tenant = tenant', encoding = encoding',
                                     delay = delay'\<rparr>,
                     w_size = size', spans = [], w_done = 0, maxSpanCount = maxSpanCount',
                     pc = L95, batch = make_slice 0, timer = t, last_flush = t,
                     flush = False, finish = False, pool = [], proc = p',
                     closer = NotCalled, now = t\<rparr>))"

text \<open>Constructing one writer after another in the same process.\<close>

fun construct_all :: "process \<Rightarrow> (time \<times> string \<times> string \<times> string \<times> Encoding \<times> Duration \<times> int \<times> int) list
     \<Rightarrow> panic + process" where
  "construct_all p [] = Inr p"
| "construct_all p ((t, it, st, tn, en, dl, sz, mx) # as) =
     (case (NewSpanWriter p t it st tn en dl sz mx :: panic + unit sys) of
        Inl e \<Rightarrow> Inl e
      | Inr s \<Rightarrow> construct_all (proc s) as)"

subsection \<open>The clock\<close>

definition maxDuration :: Duration where
  "maxDuration = 2 ^ 63 - 1"

definition minDuration :: Duration where
  "minDuration = - (2 ^ 63)"

text \<open>\<open>time.Since(last)\<close> is \<open>time.Now().Sub(last)\<close>; \<open>Sub\<close> saturates at the ends of \<open>int64\<close>.\<close>

definition time_Since :: "time \<Rightarrow> time \<Rightarrow> Duration" where
  "time_Since l n =
     (let d = n - l in
      if d > maxDuration then maxDuration else if d < minDuration then minDuration else d)"

subsection \<open>backgroundWriter\<close>

text \<open>
  The \<open>case span := <-w.spans\<close> branch of the select, lines 110 to 115, for the received
  value \<open>x\<close>.
\<close>

definition recv_span ::
  "(nat \<Rightarrow> nat \<Rightarrow> nat) \<Rightarrow> 'sp SpanAndTenant \<Rightarrow> 'sp sys \<Rightarrow> 'sp sys" where
  "recv_span g x s =
     (let b = append_slice g (batch s) x in
      if length (elems b) = cap b
      then s\<lparr>batch := b, flush := True,
             proc := (proc s)\<lparr>numWritesWithBatchSize := numWritesWithBatchSize (proc s) + 1\<rparr>,
             pc := L129\<rparr>
      else s\<lparr>batch := b, flush := False, pc := L129\<rparr>)"

text \<open>
  The select of line 108. A case can be chosen when its channel is ready: \<open>w.spans\<close> when
  its buffer is not empty, the timer when \<open>delay\<close> has passed since it was created,
  \<open>w.finish\<close> when \<open>Close\<close> is blocked in its send. Go picks any ready case. The timer case
  re-arms the timer (line 117) and goes on to line 118, where the clock is read again.
\<close>

datatype sel = SelSpan | SelTimer | SelFinish

definition select :: "(nat \<Rightarrow> nat \<Rightarrow> nat) \<Rightarrow> sel \<Rightarrow> 'sp sys \<Rightarrow> 'sp sys option" where
  "select g c s =
     (if pc s \<noteq> L108 then None
      else (case c of
              SelSpan \<Rightarrow>
                (case spans s of
                   [] \<Rightarrow> None
                 | x # rest \<Rightarrow> Some (recv_span g x (s\<lparr>spans := rest\<rparr>)))
            | SelTimer \<Rightarrow>
                (if timer s + delay (workerParams s) \<le> now s
                 then Some (s\<lparr>timer := now s, pc := L118\<rparr>)
                 else None)
            | SelFinish \<Rightarrow>
                (if closer s = L163
                 then Some (s\<lparr>finish := True, flush := (length (elems (batch s)) > 0),
                               closer := L164, pc := L129\<rparr>)
                 else None)))"

text \<open>
  Every other line of \<open>backgroundWriter\<close>: one step from the current program counter.
  Line 95 to 99 create the pool, the empty batch and the timer; line 100 reads the clock
  into \<open>last\<close>; line 103 to 106 open an iteration; line 118 is the test of the timer case;
  line 129 to 132 hand the batch over and make a new one; line 133 reads the clock again;
  line 136 closes the pool on shutdown; line 139 is \<open>w.done.Done()\<close>; line 141 leaves the
  loop on shutdown. \<open>Done\<close> on a zero counter would panic; the counter is 1 whenever line
  139 is reached (invariant \<open>ctl\<close> below).
\<close>

definition sched_step :: "'sp sys \<Rightarrow> 'sp sys option" where
  "sched_step s =
     (case pc s of
        L95 \<Rightarrow> Some (s\<lparr>pool := [], batch := make_slice (w_size s), timer := now s, pc := L100\<rparr>)
      | L100 \<Rightarrow> Some (s\<lparr>last_flush := now s, pc := L103\<rparr>)
      | L103 \<Rightarrow> Some (s\<lparr>w_done := w_done s + 1, flush := False, finish := False, pc := L108\<rparr>)
      | L108 \<Rightarrow> None
      | L118 \<Rightarrow>
          (if time_Since (last_flush s) (now s) > delay (workerParams s)
              \<and> length (elems (batch s)) > 0
           then Some (s\<lparr>flush := True,
                        proc := (proc s)\<lparr>numWritesWithFlushInterval :=
                                         numWritesWithFlushInterval (proc s) + 1\<rparr>,
                        pc := L129\<rparr>)
           else Some (s\<lparr>flush := False, pc := L129\<rparr>))
      | L129 \<Rightarrow>
          (if flush s
           then Some (s\<lparr>pool := pool s @ [WriteBatch (elems (batch s))],
                        batch := make_slice (w_size s), pc := L133\<rparr>)
           else Some (s\<lparr>pc := L136\<rparr>))
      | L133 \<Rightarrow> Some (s\<lparr>last_flush := now s, pc := L136\<rparr>)
      | L136 \<Rightarrow>
          (if finish s then Some (s\<lparr>pool := pool s @ [PoolClose], pc := L139\<rparr>)
           else Some (s\<lparr>pc := L139\<rparr>))
      | L139 \<Rightarrow> Some (s\<lparr>w_done := w_done s - 1, pc := L141\<rparr>)
      | L141 \<Rightarrow> (if finish s then Some (s\<lparr>pc := Exited\<rparr>) else Some (s\<lparr>pc := L103\<rparr>))
      | Exited \<Rightarrow> None)"

subsection \<open>WriteSpan\<close>

type_synonym MD = "string \<rightharpoonup> string list"

type_synonym ctx = "MD option"
  \<comment> \<open>all that \<open>WriteSpan\<close> reads of a context: the incoming metadata, if there is one\<close>

definition FromIncomingContext :: "ctx \<Rightarrow> MD option" where
  "FromIncomingContext c = c"

definition md_Get :: "MD \<Rightarrow> string \<Rightarrow> string list" where
  "md_Get md k = (case md k of None \<Rightarrow> [] | Some vs \<Rightarrow> vs)"

datatype 'a call = Blocked | Returned 'a

text \<open>
  The statement \<open>w.spans <- m\<close>. With room in the buffer the value is queued. With no
  room, the send completes only by handing the value to a receiver that waits in the
  select on an empty buffer, which then runs its span case; that is the only way
  through an unbuffered channel (\<open>w.size = 0\<close>). Otherwise the sender stays blocked.
\<close>

definition chan_send ::
  "(nat \<Rightarrow> nat \<Rightarrow> nat) \<Rightarrow> 'sp sys \<Rightarrow> 'sp SpanAndTenant \<Rightarrow> 'sp sys call" where
  "chan_send g w m =
     (if int (length (spans w)) < w_size w then Returned (w\<lparr>spans := spans w @ [m]\<rparr>)
      else if pc w = L108 \<and> spans w = [] then Returned (recv_span g m w)
      else Blocked)"

definition return_nil :: "'s call \<Rightarrow> (error option \<times> 's) call" where
  "return_nil r = (case r of Blocked \<Rightarrow> Blocked | Returned w' \<Rightarrow> Returned (None, w'))"

definition WriteSpan ::
  "(nat \<Rightarrow> nat \<Rightarrow> nat) \<Rightarrow> 'sp sys \<Rightarrow> ctx \<Rightarrow> 'sp \<Rightarrow> (error option \<times> 'sp sys) call" where
  "WriteSpan g w c sp =
     (case FromIncomingContext c of
        Some md \<Rightarrow>
          (let tenants = md_Get md ''x-tenant'' in
           if length tenants = 0 then return_nil (chan_send g w (SpanAndTenant sp ''''))
           else return_nil (chan_send g w (SpanAndTenant sp (tenants ! 0))))
      | None \<Rightarrow> Returned (None, w))"

subsection \<open>Close\<close>

text \<open>
  \<open>Close\<close> is three steps: the call, which reaches the send of line 163 and blocks there
  until the select takes the value (\<open>SelFinish\<close> above moves the caller to line 164);
  \<open>w.done.Wait()\<close>, which passes when the counter is zero; and \<open>return nil\<close>.
\<close>

definition Close_step :: "'sp sys \<Rightarrow> 'sp sys option" where
  "Close_step s =
     (case closer s of
        NotCalled \<Rightarrow> Some (s\<lparr>closer := L163\<rparr>)
      | L163 \<Rightarrow> None
      | L164 \<Rightarrow> (if w_done s = 0 then Some (s\<lparr>closer := CloseReturned None\<rparr>) else None)
      | CloseReturned r \<Rightarrow> None)"

subsection \<open>The system\<close>

text \<open>
  The actions: time passes; a \<open>WriteSpan\<close> call with its context and span runs to its
  return; the goroutine of \<open>backgroundWriter\<close> takes its next step, the select with the
  case it commits to; the caller of \<open>Close\<close> takes its next step. \<open>exec\<close> runs a list of
  actions and is \<open>None\<close> when one of them cannot be taken where it stands.
\<close>

datatype 'sp action =
    Tau Duration
  | Producer ctx 'sp
  | Sched
  | Select sel
  | Closer

definition step :: "(nat \<Rightarrow> nat \<Rightarrow> nat) \<Rightarrow> 'sp action \<Rightarrow> 'sp sys \<Rightarrow> 'sp sys option" where
  "step g a s =
     (case a of
        Tau d \<Rightarrow> (if 0 \<le> d then Some (s\<lparr>now := now s + d\<rparr>) else None)
      | Producer c sp \<Rightarrow>
          (case WriteSpan g s c sp of Blocked \<Rightarrow> None | Returned (e, s') \<Rightarrow> Some s')
      | Sched \<Rightarrow> sched_step s
      | Select c \<Rightarrow> select g c s
      | Closer \<Rightarrow> Close_step s)"

fun exec :: "(nat \<Rightarrow> nat \<Rightarrow> nat) \<Rightarrow> 'sp action list \<Rightarrow> 'sp sys \<Rightarrow> 'sp sys option" where
  "exec g [] s = Some s"
| "exec g (a # as) s = (case step g a s of None \<Rightarrow> None | Some s' \<Rightarrow> exec g as s')"

text \<open>
  One whole iteration of the loop, run without interruption: the select with choice \<open>c\<close>,
  then the lines up to the next line 103 or to the exit.
\<close>

fun to_loop_top :: "nat \<Rightarrow> 'sp sys \<Rightarrow> 'sp sys option" where
  "to_loop_top 0 s = (if pc s = L103 \<or> pc s = Exited then Some s else None)"
| "to_loop_top (Suc k) s =
     (if pc s = L103 \<or> pc s = Exited then Some s
      else (case sched_step s of None \<Rightarrow> None | Some s' \<Rightarrow> to_loop_top k s'))"

definition iteration :: "(nat \<Rightarrow> nat \<Rightarrow> nat) \<Rightarrow> sel \<Rightarrow> 'sp sys \<Rightarrow> 'sp sys option" where
  "iteration g c s = (case select g c s of None \<Rightarrow> None | Some s' \<Rightarrow> to_loop_top 6 s')"

text \<open>
  What a trace says was sent: for each completed \<open>WriteSpan\<close> call whose context had
  metadata, the span with the first value under \<open>x-tenant\<close>, or with the empty string
  when there is no value, in the order of the calls.
\<close>

definition tag :: "MD \<Rightarrow> 'sp \<Rightarrow> 'sp SpanAndTenant" where
  "tag md sp = SpanAndTenant sp (case md_Get md ''x-tenant'' of [] \<Rightarrow> '''' | t # ts \<Rightarrow> t)"

fun sent :: "'sp action list \<Rightarrow> 'sp SpanAndTenant list" where
  "sent [] = []"
| "sent (Producer (Some md) sp # as) = tag md sp # sent as"
| "sent (a # as) = sent as"

text \<open>The batches handed to the pool, in order.\<close>

fun written :: "'sp pool_call list \<Rightarrow> 'sp SpanAndTenant list list" where
  "written [] = []"
| "written (WriteBatch b # cs) = b # written cs"
| "written (PoolClose # cs) = written cs"

text \<open>
  Before line 95 has run the goroutine's locals are unassigned; \<open>fresh\<close> says that they
  then hold nothing. \<open>flowed\<close> lists what the writer holds: the batches handed to the
  pool, the batch in progress, the channel buffer.
\<close>

definition fresh :: "'sp sys \<Rightarrow> bool" where
  "fresh s = (pc s = L95 \<longrightarrow> elems (batch s) = [] \<and> pool s = [])"

definition flowed :: "'sp sys \<Rightarrow> 'sp SpanAndTenant list" where
  "flowed s = concat (written (pool s)) @ elems (batch s) @ spans s"

subsection \<open>Fixtures for examples\<close>

definition process_start :: process where
  "process_start = \<lparr>registerWriterMetrics = False, registry = [],
     numWritesWithBatchSize = 0, numWritesWithFlushInterval = 0\<rparr>"

definition double_cap :: "nat \<Rightarrow> nat \<Rightarrow> nat" where
  "double_cap c n = max n (2 * c)"

definition demo_writer :: "int \<Rightarrow> panic + nat sys" where
  "demo_writer sz = NewSpanWriter process_start 0 ''idx'' ''spans'' ''dflt'' EncodingJSON 1000 sz 10"

definition md_of :: "string list \<Rightarrow> MD" where
  "md_of vs = Map.empty(''x-tenant'' \<mapsto> vs)"

definition trace_two :: "nat action list" where
  "trace_two = [Producer (Some (md_of [''a'', ''b''])) 1, Sched, Sched, Sched, Select SelSpan,
     Sched, Sched, Sched, Sched, Producer (Some (md_of [])) 2, Sched, Select SelSpan, Sched]"

text \<open>The same writer with another default tenant.\<close>

definition with_tenant :: "string \<Rightarrow> 'sp sys \<Rightarrow> 'sp sys" where
  "with_tenant tn w = w\<lparr>workerParams := (workerParams w)\<lparr>params_tenant := tn\<rparr>\<rparr>"

subsection \<open>Invariants\<close>

text \<open>
  Where the shutdown stands. \<open>before_close\<close>: the select has not taken the finish
  signal. \<open>receiving\<close>: it has, and \<open>pool.Close()\<close> has not been called. \<open>pool_closed\<close>:
  \<open>pool.Close()\<close> has returned; it is the last call made on the pool and the only one of
  its kind, and no batch is in progress. \<open>ctl\<close> ties these and the wait group counter to
  the program counter.
\<close>

definition before_close :: "'sp sys \<Rightarrow> bool" where
  "before_close s = (\<not> finish s \<and> (closer s = NotCalled \<or> closer s = L163)
      \<and> PoolClose \<notin> set (pool s))"

definition receiving :: "'sp sys \<Rightarrow> bool" where
  "receiving s = (finish s \<and> closer s = L164 \<and> PoolClose \<notin> set (pool s))"

definition pool_closed :: "'sp sys \<Rightarrow> bool" where
  "pool_closed s = (finish s \<and> elems (batch s) = [] \<and> pool s \<noteq> [] \<and> last (pool s) = PoolClose
      \<and> PoolClose \<notin> set (butlast (pool s)))"

definition ctl :: "'sp sys \<Rightarrow> bool" where
  "ctl s =
     (case pc s of
        L95 \<Rightarrow> w_done s = 0 \<and> \<not> finish s \<and> (closer s = NotCalled \<or> closer s = L163)
      | L100 \<Rightarrow> w_done s = 0 \<and> before_close s
      | L103 \<Rightarrow> w_done s = 0 \<and> before_close s
      | L108 \<Rightarrow> w_done s = 1 \<and> before_close s
      | L118 \<Rightarrow> w_done s = 1 \<and> before_close s
      | L129 \<Rightarrow> w_done s = 1 \<and>
           (before_close s \<or> receiving s \<and> (\<not> flush s \<longrightarrow> elems (batch s) = []))
      | L133 \<Rightarrow> w_done s = 1 \<and> (before_close s \<or> receiving s \<and> elems (batch s) = [])
      | L136 \<Rightarrow> w_done s = 1 \<and> (before_close s \<or> receiving s \<and> elems (batch s) = [])
      | L139 \<Rightarrow> w_done s = 1 \<and> (before_close s \<or> pool_closed s \<and> closer s = L164)
      | L141 \<Rightarrow> w_done s = 0 \<and> (before_close s \<or> pool_closed s \<and>
           (closer s = L164 \<or> closer s = CloseReturned None))
      | Exited \<Rightarrow> w_done s = 0 \<and> pool_closed s \<and>
           (closer s = L164 \<or> closer s = CloseReturned None))"

text \<open>No batch handed to the pool is empty, and a flush is pending only on a batch with content.\<close>

definition nonempty :: "'sp sys \<Rightarrow> bool" where
  "nonempty s =
     ((pc s \<noteq> L95 \<longrightarrow> [] \<notin> set (written (pool s))) \<and>
      (pc s = L129 \<and> flush s \<longrightarrow> elems (batch s) \<noteq> []))"

text \<open>
  For \<open>w.size \<ge> 1\<close>: the batch keeps the capacity \<open>w.size\<close> and is full only while its
  flush is pending; batches handed over are no longer than \<open>w.size\<close>.
\<close>

definition bounded :: "'sp sys \<Rightarrow> bool" where
  "bounded s =
     (pc s \<noteq> L95 \<longrightarrow>
        (\<forall>b \<in> set (written (pool s)). int (length b) \<le> w_size s) \<and>
        cap (batch s) = nat (w_size s) \<and>
        (if pc s = L129 \<and> flush s then length (elems (batch s)) \<le> cap (batch s)
         else length (elems (batch s)) < cap (batch s)))"

text \<open>
  The registry and the \<open>sync.Once\<close> agree: once the \<open>Once\<close> has fired each counter is
  registered one time, and before that neither is registered.
\<close>

definition registered_ok :: "process \<Rightarrow> bool" where
  "registered_ok p =
     (if registerWriterMetrics p
      then count_list (registry p) metric_size = 1 \<and> count_list (registry p) metric_interval = 1
      else metric_size \<notin> set (registry p) \<and> metric_interval \<notin> set (registry p))"

definition two_writers ::
  "(time \<times> string \<times> string \<times> string \<times> Encoding \<times> Duration \<times> int \<times> int) list" where
  "two_writers = [(0, ''idx'', ''spans'', ''t1'', EncodingJSON, 1000, 2, 10),
                  (5, ''idx'', ''spans'', ''t2'', EncodingProto, 2000, 3, 10)]"

text \<open>
  A writer of capacity 2 whose goroutine waits in the select with one span in its batch,
  while \<open>Close\<close> is blocked in its send.
\<close>

definition at_select_closing :: "nat sys" where
  "at_select_closing = the (exec double_cap
     [Producer (Some (md_of [''a''])) 1, Sched, Sched, Sched, Select SelSpan,
      Sched, Sched, Sched, Sched, Sched, Closer] (projr (demo_writer 2)))"

text \<open>
  Three runs of a writer of capacity 2 with \<open>delay\<close> 1000. In \<open>trace_wait\<close> the timer is
  created at instant 0, \<open>last\<close> is read at 1500, one span is received, and the goroutine
  is back at the select at 1600. \<open>trace_late\<close> goes on: the select takes the timer case
  and 950 ns pass before line 118. In \<open>trace_idle\<close> no span with metadata is sent while
  5000 ns pass.
\<close>

definition trace_wait :: "nat action list" where
  "trace_wait = [Sched, Tau 1500, Sched, Sched, Producer (Some (md_of [''a''])) 1,
     Select SelSpan, Sched, Sched, Sched, Sched, Sched, Tau 100]"

definition trace_late :: "nat action list" where
  "trace_late = trace_wait @ [Select SelTimer, Tau 950]"

definition trace_idle :: "nat action list" where
  "trace_idle = [Sched, Sched, Sched, Tau 5000, Producer None 1]"

text \<open>
  The counters. \<open>only_size\<close> holds while neither the timer case nor the finish case has
  been taken: every batch handed over is full. \<open>size_counted\<close>: the size counter has gone
  up once for each full batch handed over or about to be. \<open>interval_frozen\<close>: without a
  timer case the interval counter stays.
\<close>

definition only_size :: "'sp sys \<Rightarrow> bool" where
  "only_size s =
     (pc s \<noteq> L118 \<and> \<not> finish s \<and>
      (pc s \<noteq> L95 \<longrightarrow>
         (\<forall>b \<in> set (written (pool s)). length b = nat (w_size s)) \<and>
         (pc s = L129 \<and> flush s \<longrightarrow> length (elems (batch s)) = nat (w_size s))))"

definition size_counted :: "nat \<Rightarrow> 'sp sys \<Rightarrow> bool" where
  "size_counted c0 s =
     (numWritesWithBatchSize (proc s) =
        c0 + (if pc s = L95 then 0
              else length (filter (\<lambda>b. length b = nat (w_size s)) (written (pool s)))
                 + (if pc s = L129 \<and> flush s \<and> length (elems (batch s)) = nat (w_size s)
                    then 1 else 0)))"

definition interval_frozen :: "nat \<Rightarrow> 'sp sys \<Rightarrow> bool" where
  "interval_frozen c1 s = (pc s \<noteq> L118 \<and> numWritesWithFlushInterval (proc s) = c1)"

text \<open>
  Three spans are sent to a writer of capacity 3 and received one by one; \<open>trace_third\<close>
  stops at the select before the third is received.
\<close>

definition trace_third :: "nat action list" where
  "trace_third = [Producer (Some (md_of [''a''])) 1, Producer (Some (md_of [''a''])) 2,
     Producer (Some (md_of [''b''])) 3, Sched, Sched, Sched,
     Select SelSpan, Sched, Sched, Sched, Sched, Sched,
     Select SelSpan, Sched, Sched, Sched, Sched, Sched]"

definition trace_three :: "nat action list" where
  "trace_three = trace_third @ [Select SelSpan, Sched, Sched, Sched, Sched, Sched]"

text \<open>
  A writer of capacity 1 is closed before any span is sent; after \<open>Close\<close> has returned,
  one span is sent and fills the buffer.
\<close>

definition trace_closed :: "nat action list" where
  "trace_closed = [Sched, Sched, Sched, Closer, Select SelFinish, Sched, Sched, Sched, Sched,
     Closer, Producer (Some (md_of [''a''])) 1]"

definition closed_run :: "nat sys option" where
  "closed_run = exec double_cap trace_closed (projr (demo_writer 1))"

text \<open>
  Two shutdowns of a writer of capacity 2 after one span was sent. In \<open>trace_lost\<close> the
  span is sent and \<open>Close\<close> is called before the goroutine has reached its select, and
  the select, with the span case and the finish case both ready, takes the finish case;
  \<open>lost_run k\<close> is the state after the first \<open>k\<close> steps. In \<open>trace_drained\<close> the goroutine
  has received the span before \<open>Close\<close> is called.
\<close>

definition trace_lost :: "nat action list" where
  "trace_lost = [Producer (Some (md_of [''a''])) 1, Closer, Sched, Sched, Sched,
     Select SelFinish, Sched, Sched, Sched, Closer]"

definition lost_run :: "nat \<Rightarrow> nat sys option" where
  "lost_run k = exec double_cap (take k trace_lost) (projr (demo_writer 2))"

definition trace_drained :: "nat action list" where
  "trace_drained = [Producer (Some (md_of [''a''])) 1, Sched, Sched, Sched, Select SelSpan,
     Closer, Sched, Sched, Sched, Sched, Sched, Select SelFinish, Sched, Sched, Sched, Sched,
     Closer]"

section \<open>Basic facts\<close>

lemma WriteSpan_Some:
  "WriteSpan g w (Some md) sp = return_nil (chan_send g w (tag md sp))"
  by (cases "md_Get md ''x-tenant''") (simp_all add: WriteSpan_def FromIncomingContext_def tag_def)

lemma WriteSpan_None: "WriteSpan g w None sp = Returned (None, w)"
  by (simp add: WriteSpan_def FromIncomingContext_def)

text \<open>The forms a step can take.\<close>

lemma step_cases [consumes 1, case_names tau noop enq handoff recv tick fin sched closer]:
  assumes "step g a s = Some s'"
  obtains
    d where "a = Tau d" "0 \<le> d" "s' = s\<lparr>now := now s + d\<rparr>"
  | sp where "a = Producer None sp" "s' = s"
  | md sp where "a = Producer (Some md) sp" "int (length (spans s)) < w_size s"
      "s' = s\<lparr>spans := spans s @ [tag md sp]\<rparr>"
  | md sp where "a = Producer (Some md) sp" "\<not> int (length (spans s)) < w_size s"
      "pc s = L108" "spans s = []" "s' = recv_span g (tag md sp) s"
  | x rest where "a = Select SelSpan" "pc s = L108" "spans s = x # rest"
      "s' = recv_span g x (s\<lparr>spans := rest\<rparr>)"
  | "a = Select SelTimer" "pc s = L108" "timer s + delay (workerParams s) \<le> now s"
      "s' = s\<lparr>timer := now s, pc := L118\<rparr>"
  | "a = Select SelFinish" "pc s = L108" "closer s = L163"
      "s' = s\<lparr>finish := True, flush := (length (elems (batch s)) > 0), closer := L164, pc := L129\<rparr>"
  | "a = Sched" "sched_step s = Some s'"
  | "a = Closer" "Close_step s = Some s'"
proof (cases a)
  case (Tau d)
  with assms that(1) show ?thesis by (auto simp: step_def split: if_splits)
next
  case (Producer c sp)
  show ?thesis
  proof (cases c)
    case None
    with Producer assms that(2) show ?thesis by (auto simp: step_def WriteSpan_None)
  next
    case (Some md)
    with Producer assms that(3,4) show ?thesis
      by (auto simp: step_def WriteSpan_Some return_nil_def chan_send_def split: if_splits)
  qed
next
  case Sched
  with assms that(8) show ?thesis by (auto simp: step_def)
next
  case (Select c)
  with assms that(5,6,7) show ?thesis
    by (cases c) (auto simp: step_def select_def split: if_splits list.splits)
next
  case Closer
  with assms that(9) show ?thesis by (auto simp: step_def)
qed

lemma exec_append:
  "exec g (as @ bs) s = (case exec g as s of None \<Rightarrow> None | Some s' \<Rightarrow> exec g bs s')"
  by (induction as arbitrary: s) (auto split: option.splits)

lemma exec_snoc:
  "exec g (as @ [a]) s = (case exec g as s of None \<Rightarrow> None | Some s' \<Rightarrow> step g a s')"
  by (simp add: exec_append split: option.splits)

lemma written_append: "written (xs @ ys) = written xs @ written ys"
  by (induction xs rule: written.induct) auto

lemma sent_append: "sent (xs @ ys) = sent xs @ sent ys"
  by (induction xs rule: sent.induct) auto

lemma elems_append_slice: "elems (append_slice g b x) = elems b @ [x]"
  by (simp add: append_slice_def)

lemma Close_step_only_closer:
  "Close_step s = Some s' \<Longrightarrow> \<exists>c. s' = s\<lparr>closer := c\<rparr>"
  by (auto simp: Close_step_def split: cpc.splits if_splits)

lemma NewSpanWriter_Inr:
  assumes "NewSpanWriter p t it st tn en dl sz mx = Inr s0"
  shows "pc s0 = L95" "pool s0 = []" "spans s0 = []" "elems (batch s0) = []" "w_done s0 = 0"
    "closer s0 = NotCalled" "\<not> finish s0" "w_size s0 = sz" "0 \<le> sz"
    "delay (workerParams s0) = dl" "params_tenant (workerParams s0) = tn"
    "registerMetrics p = Inr (proc s0)"
  using assms
  by (auto simp: NewSpanWriter_def make_slice_def split: if_splits sum.splits)

section \<open>Conservation of the spans sent\<close>

lemma sched_step_flow:
  "sched_step s = Some s' \<Longrightarrow> fresh s \<Longrightarrow> flowed s' = flowed s \<and> fresh s'"
  by (auto simp: sched_step_def fresh_def flowed_def make_slice_def written_append Let_def
      split: spc.splits if_splits)

lemma step_flow:
  assumes "step g a s = Some s'" "fresh s"
  shows "flowed s' = flowed s @ sent [a] \<and> fresh s'"
  using assms
  by (cases rule: step_cases)
     (auto simp: fresh_def flowed_def recv_span_def elems_append_slice Let_def
        dest: Close_step_only_closer sched_step_flow)

lemma exec_flow:
  "exec g acts s = Some s' \<Longrightarrow> fresh s \<Longrightarrow> flowed s' = flowed s @ sent acts \<and> fresh s'"
proof (induction acts arbitrary: s)
  case Nil
  then show ?case by simp
next
  case (Cons a acts)
  then obtain s1 where s1: "step g a s = Some s1" "exec g acts s1 = Some s'"
    by (auto split: option.splits)
  from step_flow[OF s1(1) Cons.prems(2)] Cons.IH[OF s1(2)]
  show ?case using sent_append[of "[a]" acts] by simp
qed

lemma init_flow:
  assumes "NewSpanWriter p t it st tn en dl sz mx = Inr s0" "exec g acts s0 = Some s"
  shows "flowed s = sent acts"
  using exec_flow[OF assms(2)] NewSpanWriter_Inr[OF assms(1)]
  by (simp add: fresh_def flowed_def)

lemma sent_mem:
  "x \<in> set (sent acts) \<Longrightarrow> \<exists>md sp. Producer (Some md) sp \<in> set acts \<and> x = tag md sp"
  by (induction acts rule: sent.induct) auto

lemma written_mem: "WriteBatch b \<in> set cs \<Longrightarrow> b \<in> set (written cs)"
  by (induction cs rule: written.induct) auto

lemmas run_simps = NewSpanWriter_def registerMetrics_def MustRegister_def metric_size_def
  metric_interval_def process_start_def double_cap_def demo_writer_def md_of_def
  step_def sched_step_def select_def recv_span_def append_slice_def make_slice_def
  WriteSpan_def FromIncomingContext_def md_Get_def chan_send_def return_nil_def Close_step_def
  tag_def Let_def

section \<open>WriteSpan\<close>

text \<open>
  C6. A \<open>WriteSpan\<close> call whose context has no metadata returns nil and leaves the writer
  as it was: nothing is sent on the channel. An execution that contains such a call
  reaches the very state that the execution without the call reaches, so the span is in
  no batch that is ever flushed.
\<close>

theorem WriteSpan_without_metadata_drops:
  "WriteSpan g w None sp = Returned (None, w)
   \<and> exec g (as @ Producer None sp # bs) s = exec g (as @ bs) s"
proof -
  have "step g (Producer None sp) s' = Some s'" for s' :: "'a sys"
    by (simp add: step_def WriteSpan_None)
  then have "exec g (Producer None sp # bs) s' = exec g bs s'" for s' :: "'a sys"
    by simp
  then show ?thesis
    by (simp add: exec_append WriteSpan_None del: exec.simps split: option.splits)
qed

text \<open>
  C7. After any execution of a new writer, the batches handed to the pool, then the batch
  in progress, then the channel buffer hold exactly the tagged spans that were sent, in
  the order of sending. So every tagged span in a flushed batch carries the tenant given
  to it by \<open>WriteSpan\<close>: the first value under \<open>x-tenant\<close>, or the empty string when there
  is none.
\<close>

theorem tenant_round_trip:
  assumes "NewSpanWriter p t it st tn en dl sz mx = Inr s0" "exec g acts s0 = Some s"
  shows "concat (written (pool s)) @ elems (batch s) @ spans s = sent acts
    \<and> (\<forall>b x. WriteBatch b \<in> set (pool s) \<and> x \<in> set b \<longrightarrow>
          (\<exists>md sp. Producer (Some md) sp \<in> set acts \<and> span x = sp \<and>
             tenant x = (case md_Get md ''x-tenant'' of [] \<Rightarrow> '''' | v # vs \<Rightarrow> v)))"
proof -
  have eq: "concat (written (pool s)) @ elems (batch s) @ spans s = sent acts"
    using init_flow[OF assms] by (simp add: flowed_def)
  {
    fix b x assume "WriteBatch b \<in> set (pool s)" "x \<in> set b"
    then have "x \<in> set (concat (written (pool s)))" using written_mem by auto
    then have "x \<in> set (sent acts)" using eq by (metis UnCI set_append)
    then obtain md sp where "Producer (Some md) sp \<in> set acts" "x = tag md sp"
      using sent_mem by blast
    then have "\<exists>md sp. Producer (Some md) sp \<in> set acts \<and> span x = sp \<and>
             tenant x = (case md_Get md ''x-tenant'' of [] \<Rightarrow> '''' | v # vs \<Rightarrow> v)"
      by (auto simp: tag_def)
  }
  with eq show ?thesis by blast
qed

theorem tenant_round_trip_witness:
  "\<exists>s0 s. demo_writer 2 = Inr s0 \<and> exec double_cap trace_two s0 = Some s
     \<and> pool s = [WriteBatch [SpanAndTenant 1 ''a'', SpanAndTenant 2 '''']]
     \<and> concat (written (pool s)) @ elems (batch s) @ spans s = sent trace_two"
proof -
  let ?n = "demo_writer 2"
  let ?e = "exec double_cap trace_two (projr ?n)"
  have a: "NewSpanWriter process_start 0 ''idx'' ''spans'' ''dflt'' EncodingJSON 1000 2 10
             = Inr (projr ?n)"
    by (simp add: run_simps)
  have b: "?e = Some (the ?e)"
    by (simp add: run_simps trace_two_def)
  have c: "pool (the ?e) = [WriteBatch [SpanAndTenant 1 ''a'', SpanAndTenant 2 '''']]"
    by (simp add: run_simps trace_two_def)
  from tenant_round_trip[OF a b] a b c show ?thesis
    unfolding demo_writer_def by blast
qed

section \<open>Invariants of every execution\<close>

lemmas ctl_defs = ctl_def before_close_def receiving_def pool_closed_def

lemma sched_step_ctl: 
  assumes "sched_step s = Some s'" "ctl s" shows "ctl s'"
proof (cases "pc s")
  case L95 with assms show ?thesis
    by (auto simp: sched_step_def ctl_defs make_slice_def)
next
  case L100 with assms show ?thesis
    by (auto simp: sched_step_def ctl_defs make_slice_def)
next
  case L103 with assms show ?thesis
    by (auto simp: sched_step_def ctl_defs make_slice_def)
next
  case L108 with assms show ?thesis
    by (auto simp: sched_step_def ctl_defs make_slice_def)
next
  case L118 with assms show ?thesis
    by (auto simp: sched_step_def ctl_defs make_slice_def split: if_splits)
next
  case L129 with assms show ?thesis
    by (auto simp: sched_step_def ctl_defs make_slice_def split: if_splits)
next
  case L133 with assms show ?thesis
    by (auto simp: sched_step_def ctl_defs make_slice_def split: if_splits)
next
  case L136 with assms show ?thesis
    by (auto simp: sched_step_def ctl_defs make_slice_def split: if_splits)
next
  case L139 with assms show ?thesis
    by (auto simp: sched_step_def ctl_defs make_slice_def split: if_splits)
next
  case L141 with assms show ?thesis
    by (auto simp: sched_step_def ctl_defs make_slice_def split: if_splits)
next
  case Exited with assms show ?thesis
    by (auto simp: sched_step_def ctl_defs make_slice_def split: if_splits)
qed

lemma step_ctl:
  assumes "step g a s = Some s'" "ctl s"
  shows "ctl s'"
  using assms
proof (cases rule: step_cases)
  case sched
  then show ?thesis using assms(2) sched_step_ctl by blast
next
  case closer
  then show ?thesis using assms(2)
    by (cases "pc s"; cases "closer s") (auto simp: Close_step_def ctl_defs split: if_splits)
next
  case (tau d) then show ?thesis using assms(2) by (cases "pc s") (auto simp: ctl_defs)
next
  case (noop sp) then show ?thesis using assms(2) by simp
next
  case (enq md sp) then show ?thesis using assms(2) by (cases "pc s") (auto simp: ctl_defs)
next
  case (handoff md sp) then show ?thesis using assms(2)
    by (auto simp: ctl_defs recv_span_def Let_def)
next
  case (recv x rest) then show ?thesis using assms(2)
    by (auto simp: ctl_defs recv_span_def Let_def)
next
  case tick then show ?thesis using assms(2) by (auto simp: ctl_defs)
next
  case fin then show ?thesis using assms(2) by (auto simp: ctl_defs)
qed

lemma exec_invariant:
  assumes "exec g acts s = Some s'" "I s"
    and "\<forall>a \<in> set acts. \<forall>u u'. step g a u = Some u' \<longrightarrow> I u \<longrightarrow> I u'"
  shows "I s'"
  using assms
proof (induction acts arbitrary: s)
  case Nil
  then show ?case by simp
next
  case (Cons a acts)
  then obtain s1 where s1: "step g a s = Some s1" "exec g acts s1 = Some s'"
    by (auto split: option.splits)
  have "I s1" using Cons.prems(2,3) s1(1) by auto
  then show ?case using Cons.IH[OF s1(2)] Cons.prems(3) by auto
qed

lemma sched_step_const:
  "sched_step s = Some s' \<Longrightarrow> w_size s' = w_size s \<and> workerParams s' = workerParams s"
  by (cases "pc s") (auto simp: sched_step_def split: if_splits)

lemma step_const:
  "step g a s = Some s' \<Longrightarrow> w_size s' = w_size s \<and> workerParams s' = workerParams s"
  by (cases rule: step_cases)
     (auto simp: recv_span_def Let_def sched_step_const dest: Close_step_only_closer)

lemma exec_const:
  "exec g acts s = Some s' \<Longrightarrow> w_size s' = w_size s \<and> workerParams s' = workerParams s"
  by (induction acts arbitrary: s) (auto split: option.splits dest: step_const)

lemma sched_step_nonempty:
  assumes "sched_step s = Some s'" "nonempty s" shows "nonempty s'"
  using assms
  by (cases "pc s") (auto simp: sched_step_def nonempty_def written_append split: if_splits)

lemma step_nonempty:
  assumes "step g a s = Some s'" "nonempty s"
  shows "nonempty s'"
  using assms
proof (cases rule: step_cases)
  case sched
  then show ?thesis using assms(2) sched_step_nonempty by blast
next
  case closer
  then show ?thesis using assms(2) Close_step_only_closer[of s s'] by (auto simp: nonempty_def)
qed (auto simp: nonempty_def recv_span_def Let_def elems_append_slice)

lemma sched_step_bounded:
  assumes "sched_step s = Some s'" "1 \<le> w_size s" "bounded s" shows "bounded s'"
  using assms
  by (cases "pc s")
     (auto simp: sched_step_def bounded_def make_slice_def written_append split: if_splits)

lemma recv_span_bounded:
  assumes "bounded s" "pc s = L108"
  shows "bounded (recv_span g x s)"
  using assms by (auto simp: bounded_def recv_span_def Let_def append_slice_def)

lemma step_bounded:
  assumes "step g a s = Some s'" "1 \<le> w_size s" "bounded s"
  shows "bounded s'"
  using assms
proof (cases rule: step_cases)
  case (handoff md sp)
  then show ?thesis using recv_span_bounded[OF assms(3)] by simp
next
  case (recv x rest)
  have "bounded (s\<lparr>spans := rest\<rparr>)" using assms(3) by (auto simp: bounded_def)
  then show ?thesis using recv recv_span_bounded[of "s\<lparr>spans := rest\<rparr>" g x] by simp
next
  case sched
  then show ?thesis using assms(2,3) sched_step_bounded by blast
next
  case closer
  then show ?thesis using assms(3) Close_step_only_closer[of s s'] by (auto simp: bounded_def)
qed (auto simp: bounded_def)

lemma reach:
  assumes "NewSpanWriter p t it st tn en dl sz mx = Inr s0" "exec g acts s0 = Some s"
  shows "fresh s" "nonempty s" "ctl s" "w_size s = sz" "1 \<le> sz \<Longrightarrow> bounded s"
proof -
  note i = NewSpanWriter_Inr[OF assms(1)]
  show "fresh s" using exec_flow[OF assms(2)] i by (simp add: fresh_def)
  show "nonempty s"
    by (rule exec_invariant[OF assms(2)]) (auto simp: nonempty_def i dest: step_nonempty)
  show "ctl s"
    by (rule exec_invariant[OF assms(2)]) (auto simp: ctl_def i dest: step_ctl)
  show sz: "w_size s = sz" using exec_const[OF assms(2)] i by simp
  show "bounded s" if "1 \<le> sz"
  proof -
    have "bounded s \<and> w_size s = sz"
      by (rule exec_invariant[OF assms(2)])
         (use that in \<open>auto simp: bounded_def i dest: step_bounded step_const\<close>)
    then show ?thesis by simp
  qed
qed

section \<open>The scheduler\<close>

text \<open>
  C1. With \<open>w.size \<ge> 1\<close>, after any execution of a new writer, every batch that was
  passed to \<open>pool.WriteBatch\<close> has at least one element and at most \<open>w.size\<close> elements,
  whichever of the three cases of the select caused the flush.
\<close>

theorem batch_bounds:
  assumes "NewSpanWriter p t it st tn en dl sz mx = Inr s0" "1 \<le> sz"
    and "exec g acts s0 = Some s" "WriteBatch b \<in> set (pool s)"
  shows "1 \<le> length b \<and> int (length b) \<le> sz"
proof -
  note r = reach[OF assms(1,3)]
  from assms(4) r(1) have pc: "pc s \<noteq> L95" by (auto simp: fresh_def)
  from assms(4) have b: "b \<in> set (written (pool s))" by (rule written_mem)
  from r(2) pc b have "b \<noteq> []" by (auto simp: nonempty_def)
  moreover from r(5)[OF assms(2)] pc b r(4) have "int (length b) \<le> sz"
    by (auto simp: bounded_def)
  ultimately show ?thesis by (cases b) auto
qed

theorem batch_bounds_witness:
  "\<exists>s0 s. demo_writer 2 = Inr s0 \<and> (1::int) \<le> 2 \<and> exec double_cap trace_two s0 = Some s
     \<and> WriteBatch [SpanAndTenant 1 ''a'', SpanAndTenant 2 ''''] \<in> set (pool s)
     \<and> 1 \<le> length [SpanAndTenant (1::nat) ''a'', SpanAndTenant 2 '''']
     \<and> int (length [SpanAndTenant (1::nat) ''a'', SpanAndTenant 2 '''']) \<le> 2"
proof -
  let ?n = "demo_writer 2"
  let ?e = "exec double_cap trace_two (projr ?n)"
  have a: "NewSpanWriter process_start 0 ''idx'' ''spans'' ''dflt'' EncodingJSON 1000 2 10
             = Inr (projr ?n)"
    by (simp add: run_simps)
  have b: "?e = Some (the ?e)"
    by (simp add: run_simps trace_two_def)
  have c: "WriteBatch [SpanAndTenant 1 ''a'', SpanAndTenant 2 ''''] \<in> set (pool (the ?e))"
    by (simp add: run_simps trace_two_def)
  have d: "(1::int) \<le> 2" by simp
  from batch_bounds[OF a d b c] a b c d show ?thesis
    unfolding demo_writer_def by blast
qed

section \<open>Metrics registration\<close>

lemma metric_names_differ: "metric_size \<noteq> metric_interval"
  by (simp add: metric_size_def metric_interval_def)

lemma registerMetrics_ok:
  assumes "registered_ok p"
  shows "\<exists>p'. registerMetrics p = Inr p' \<and> registered_ok p' \<and> registerWriterMetrics p'"
  using assms metric_names_differ
  by (auto simp: registerMetrics_def MustRegister_def registered_ok_def count_list_0_iff)

lemma NewSpanWriter_ok:
  assumes "registered_ok p"
  shows "case (NewSpanWriter p t it st tn en dl sz mx :: panic + 'sp sys) of
           Inl e \<Rightarrow> e = MakeChanSizeOutOfRange
         | Inr s \<Rightarrow> registered_ok (proc s) \<and> registerWriterMetrics (proc s)"
  using registerMetrics_ok[OF assms] by (auto simp: NewSpanWriter_def)

lemma construct_all_ok:
  assumes "registered_ok p"
  shows "case construct_all p args of
           Inl e \<Rightarrow> e = MakeChanSizeOutOfRange
         | Inr p' \<Rightarrow> registered_ok p' \<and> (args \<noteq> [] \<longrightarrow> registerWriterMetrics p')"
  using assms
proof (induction p args rule: construct_all.induct)
  case (1 p)
  then show ?case by simp
next
  case (2 p t it st tn en dl sz mx as)
  show ?case
  proof (cases "NewSpanWriter p t it st tn en dl sz mx :: panic + unit sys")
    case (Inl e)
    then show ?thesis using NewSpanWriter_ok[OF 2(2), of t it st tn en dl sz mx, where ?'sp = unit]
      by simp
  next
    case (Inr s)
    then have ok: "registered_ok (proc s)" "registerWriterMetrics (proc s)"
      using NewSpanWriter_ok[OF 2(2), of t it st tn en dl sz mx, where ?'sp = unit] by simp_all
    from 2(1)[OF Inr ok(1)] ok(2) Inr show ?thesis
      by (cases as) (auto split: sum.splits)
  qed
qed

text \<open>
  C9. In a process where the two counters are not registered yet and the \<open>Once\<close> has not
  fired, constructing any number of writers one after another never reaches the
  \<open>AlreadyRegistered\<close> panic of \<open>MustRegister\<close>, and after at least one construction each
  of the two counters is in the registry exactly once.
\<close>

theorem metrics_registered_once:
  assumes "\<not> registerWriterMetrics p" "metric_size \<notin> set (registry p)"
    "metric_interval \<notin> set (registry p)"
  shows "(\<forall>c. construct_all p args \<noteq> Inl (AlreadyRegistered c))
    \<and> (\<forall>p'. construct_all p args = Inr p' \<and> args \<noteq> [] \<longrightarrow>
          registerWriterMetrics p' \<and> count_list (registry p') metric_size = 1
          \<and> count_list (registry p') metric_interval = 1)"
proof -
  from assms have "registered_ok p" by (simp add: registered_ok_def)
  from construct_all_ok[OF this, of args] show ?thesis
    by (auto simp: registered_ok_def split: sum.splits)
qed

theorem metrics_registered_once_witness:
  "\<not> registerWriterMetrics process_start \<and> metric_size \<notin> set (registry process_start)
   \<and> metric_interval \<notin> set (registry process_start)
   \<and> (\<exists>p'. construct_all process_start two_writers = Inr p' \<and> two_writers \<noteq> []
         \<and> registry p' = [metric_size, metric_interval]
         \<and> count_list (registry p') metric_size = 1
         \<and> count_list (registry p') metric_interval = 1)"
proof -
  have a: "\<not> registerWriterMetrics process_start" "metric_size \<notin> set (registry process_start)"
    "metric_interval \<notin> set (registry process_start)"
    by (simp_all add: process_start_def)
  let ?p = "projr (construct_all process_start two_writers)"
  have b: "construct_all process_start two_writers = Inr ?p"
    by (simp add: two_writers_def NewSpanWriter_def registerMetrics_def MustRegister_def
        process_start_def metric_size_def metric_interval_def)
  have c: "registry ?p = [metric_size, metric_interval]" "two_writers \<noteq> []"
    by (simp_all add: two_writers_def NewSpanWriter_def registerMetrics_def MustRegister_def
        process_start_def metric_size_def metric_interval_def)
  from metrics_registered_once[OF a, of two_writers] a b c show ?thesis by blast
qed

section \<open>The shutdown iteration\<close>

lemma Exited_stays:
  assumes "step g a s = Some s'" "pc s = Exited"
  shows "pc s' = Exited \<and> pool s' = pool s \<and> batch s' = batch s \<and> proc s' = proc s"
  using assms
  by (cases rule: step_cases) (auto simp: sched_step_def dest: Close_step_only_closer)

lemma exec_Exited:
  assumes "exec g acts s = Some s'" "pc s = Exited"
  shows "pc s' = Exited \<and> pool s' = pool s \<and> proc s' = proc s"
proof -
  have "pc s' = Exited \<and> pool s' = pool s \<and> batch s' = batch s \<and> proc s' = proc s"
    by (rule exec_invariant[OF assms(1), where I = "\<lambda>u. pc u = Exited \<and> pool u = pool s \<and> batch u = batch s \<and> proc u = proc s"])
       (use assms(2) Exited_stays in \<open>auto\<close>)
  then show ?thesis by simp
qed

text \<open>
  C5. When the select takes the finish signal, the iteration hands the batch to the pool
  if and only if the batch is not empty, then calls \<open>pool.Close()\<close>; neither counter
  changes; the loop is left: the goroutine has exited, no step of it is possible, and
  the calls made on the pool stay as they are in every continuation.
\<close>

theorem shutdown_iteration:
  assumes "pc s = L108" "closer s = L163"
  shows "\<exists>s'. iteration g SelFinish s = Some s'
      \<and> pool s' = pool s @ (if length (elems (batch s)) > 0 then [WriteBatch (elems (batch s))] else [])
                    @ [PoolClose]
      \<and> numWritesWithBatchSize (proc s') = numWritesWithBatchSize (proc s)
      \<and> numWritesWithFlushInterval (proc s') = numWritesWithFlushInterval (proc s)
      \<and> pc s' = Exited \<and> sched_step s' = None \<and> (\<forall>c. select g c s' = None)
      \<and> (\<forall>acts s''. exec g acts s' = Some s'' \<longrightarrow> pc s'' = Exited \<and> pool s'' = pool s')"
proof -
  obtain s' where it: "iteration g SelFinish s = Some s'"
    and r: "pool s' = pool s @ (if length (elems (batch s)) > 0 then [WriteBatch (elems (batch s))] else [])
                    @ [PoolClose]" "proc s' = proc s" "pc s' = Exited"
    using assms
    by (cases "elems (batch s) = []")
       (simp_all add: iteration_def select_def sched_step_def eval_nat_numeral make_slice_def)
  from r(3) have "sched_step s' = None" "\<forall>c. select g c s' = None"
    by (simp_all add: sched_step_def select_def)
  moreover have "\<forall>acts s''. exec g acts s' = Some s'' \<longrightarrow> pc s'' = Exited \<and> pool s'' = pool s'"
    using exec_Exited[OF _ r(3)] by blast
  ultimately show ?thesis using it r by auto
qed

theorem shutdown_iteration_witness:
  "pc at_select_closing = L108 \<and> closer at_select_closing = L163
   \<and> elems (batch at_select_closing) = [SpanAndTenant 1 ''a'']
   \<and> (\<exists>s'. iteration double_cap SelFinish at_select_closing = Some s'
        \<and> pool s' = [WriteBatch [SpanAndTenant 1 ''a''], PoolClose]
        \<and> numWritesWithBatchSize (proc s') = 0 \<and> numWritesWithFlushInterval (proc s') = 0
        \<and> pc s' = Exited)"
proof -
  have a: "pc at_select_closing = L108" "closer at_select_closing = L163"
    by (simp_all add: at_select_closing_def run_simps)
  have b: "elems (batch at_select_closing) = [SpanAndTenant 1 ''a'']" "pool at_select_closing = []"
    "numWritesWithBatchSize (proc at_select_closing) = 0"
    "numWritesWithFlushInterval (proc at_select_closing) = 0"
    by (simp_all add: at_select_closing_def run_simps)
  from shutdown_iteration[OF a, of double_cap] a b show ?thesis by auto
qed

section \<open>The timer iteration\<close>

lemma concat_empty_nonempty:
  assumes "concat ws = []" "[] \<notin> set ws" shows "ws = []"
  using assms by (cases ws) auto

lemma time_Since_exact:
  "minDuration \<le> n - l \<Longrightarrow> n - l \<le> maxDuration \<Longrightarrow> time_Since l n = n - l"
  by (simp add: time_Since_def)

lemma clock_monotone:
  assumes "NewSpanWriter p t it st tn en dl sz mx = Inr s0" "exec g acts s0 = Some s"
  shows "last_flush s \<le> now s"
proof (rule exec_invariant[OF assms(2), where I = "\<lambda>u. last_flush u \<le> now u"])
  show "last_flush s0 \<le> now s0"
    using assms(1) by (auto simp: NewSpanWriter_def split: if_splits sum.splits)
  show "\<forall>a\<in>set acts. \<forall>u u'. step g a u = Some u' \<longrightarrow> last_flush u \<le> now u
          \<longrightarrow> last_flush u' \<le> now u'"
  proof (intro ballI allI impI)
    fix a and u u' :: "'a sys"
    assume st: "step g a u = Some u'" and le: "last_flush u \<le> now u"
    from st le show "last_flush u' \<le> now u'"
    proof (cases rule: step_cases)
      case sched
      with le show ?thesis
        by (cases "pc u") (auto simp: sched_step_def split: if_splits)
    next
      case closer
      with le Close_step_only_closer[of u u'] show ?thesis by auto
    qed (auto simp: recv_span_def Let_def)
  qed
qed

text \<open>
  C4. In every state that a new writer can reach, \<open>last\<close> is not after the clock. With
  the goroutine at the select, the timer case can be taken exactly when \<open>delay\<close> has
  passed since the timer was created, and taking it creates a new timer at the current
  instant, so the next tick is a full \<open>delay\<close> away. With the goroutine at line 118,
  whatever time has passed since the select, and with \<open>now - last\<close> in the range of a
  \<open>Duration\<close>: the rest of the iteration flushes if and only if \<open>now - last > delay\<close> and
  the batch is not empty, \<open>now\<close> being the clock at line 118; the interval counter goes
  up by one exactly then, the size counter never, and a tick on an empty batch changes
  neither the pool nor the batch. The same holds of the whole iteration run from the
  select without time passing. And when nothing was sent, nothing was ever flushed,
  whatever time has passed.
\<close>

theorem timer_iteration:
  assumes "NewSpanWriter p t it st tn en dl sz mx = Inr s0" "exec g acts s0 = Some s"
  shows "last_flush s \<le> now s
    \<and> (pc s = L108 \<longrightarrow>
          select g SelTimer s
            = (if timer s + dl \<le> now s then Some (s\<lparr>timer := now s, pc := L118\<rparr>) else None))
    \<and> (pc s = L118 \<and> now s - last_flush s \<le> maxDuration \<longrightarrow>
          (\<exists>s'. to_loop_top 6 s = Some s' \<and> pc s' = L103 \<and> timer s' = timer s
             \<and> numWritesWithBatchSize (proc s') = numWritesWithBatchSize (proc s)
             \<and> (if now s - last_flush s > dl \<and> length (elems (batch s)) > 0
                 then pool s' = pool s @ [WriteBatch (elems (batch s))]
                    \<and> elems (batch s') = [] \<and> last_flush s' = now s
                    \<and> numWritesWithFlushInterval (proc s')
                        = numWritesWithFlushInterval (proc s) + 1
                 else pool s' = pool s \<and> batch s' = batch s
                    \<and> last_flush s' = last_flush s
                    \<and> numWritesWithFlushInterval (proc s')
                        = numWritesWithFlushInterval (proc s))))
    \<and> (pc s = L108 \<and> timer s + dl \<le> now s \<and> now s - last_flush s \<le> maxDuration \<longrightarrow>
          (\<exists>s'. iteration g SelTimer s = Some s' \<and> pc s' = L103 \<and> timer s' = now s
             \<and> numWritesWithBatchSize (proc s') = numWritesWithBatchSize (proc s)
             \<and> (if now s - last_flush s > dl \<and> length (elems (batch s)) > 0
                 then pool s' = pool s @ [WriteBatch (elems (batch s))]
                    \<and> elems (batch s') = [] \<and> last_flush s' = now s
                    \<and> numWritesWithFlushInterval (proc s')
                        = numWritesWithFlushInterval (proc s) + 1
                 else pool s' = pool s \<and> batch s' = batch s
                    \<and> last_flush s' = last_flush s
                    \<and> numWritesWithFlushInterval (proc s')
                        = numWritesWithFlushInterval (proc s))))
    \<and> (sent acts = [] \<longrightarrow> written (pool s) = [])"
proof -
  note r = reach[OF assms]
  note mono = clock_monotone[OF assms]
  have dl: "delay (workerParams s) = dl"
    using exec_const[OF assms(2)] NewSpanWriter_Inr(10)[OF assms(1)] by simp
  have since: "time_Since (last_flush s) (now s) = now s - last_flush s"
    if "now s - last_flush s \<le> maxDuration"
    using that mono by (intro time_Since_exact) (simp_all add: minDuration_def)
  have A: "select g SelTimer s
            = (if timer s + dl \<le> now s then Some (s\<lparr>timer := now s, pc := L118\<rparr>) else None)"
    if "pc s = L108"
    using that dl by (simp add: select_def)
  have B: "\<exists>s'. to_loop_top 6 s = Some s' \<and> pc s' = L103 \<and> timer s' = timer s
             \<and> numWritesWithBatchSize (proc s') = numWritesWithBatchSize (proc s)
             \<and> (if now s - last_flush s > dl \<and> length (elems (batch s)) > 0
                 then pool s' = pool s @ [WriteBatch (elems (batch s))]
                    \<and> elems (batch s') = [] \<and> last_flush s' = now s
                    \<and> numWritesWithFlushInterval (proc s')
                        = numWritesWithFlushInterval (proc s) + 1
                 else pool s' = pool s \<and> batch s' = batch s
                    \<and> last_flush s' = last_flush s
                    \<and> numWritesWithFlushInterval (proc s')
                        = numWritesWithFlushInterval (proc s))"
    if pc: "pc s = L118" and rg: "now s - last_flush s \<le> maxDuration"
  proof -
    from r(3) pc have nf: "\<not> finish s" by (simp add: ctl_defs)
    note e = since[OF rg]
    show ?thesis
    proof (cases "now s - last_flush s > dl \<and> length (elems (batch s)) > 0")
      case True
      with pc nf dl e show ?thesis
        by (simp add: sched_step_def eval_nat_numeral make_slice_def)
    next
      case False
      with pc nf dl e show ?thesis
        by (simp add: sched_step_def eval_nat_numeral make_slice_def)
    qed
  qed
  have C: "\<exists>s'. iteration g SelTimer s = Some s' \<and> pc s' = L103 \<and> timer s' = now s
             \<and> numWritesWithBatchSize (proc s') = numWritesWithBatchSize (proc s)
             \<and> (if now s - last_flush s > dl \<and> length (elems (batch s)) > 0
                 then pool s' = pool s @ [WriteBatch (elems (batch s))]
                    \<and> elems (batch s') = [] \<and> last_flush s' = now s
                    \<and> numWritesWithFlushInterval (proc s')
                        = numWritesWithFlushInterval (proc s) + 1
                 else pool s' = pool s \<and> batch s' = batch s
                    \<and> last_flush s' = last_flush s
                    \<and> numWritesWithFlushInterval (proc s')
                        = numWritesWithFlushInterval (proc s))"
    if pc: "pc s = L108" and rdy: "timer s + dl \<le> now s"
      and rg: "now s - last_flush s \<le> maxDuration"
  proof -
    from r(3) pc have nf: "\<not> finish s" by (simp add: ctl_defs)
    note e = since[OF rg]
    show ?thesis
    proof (cases "now s - last_flush s > dl \<and> length (elems (batch s)) > 0")
      case True
      with pc rdy nf dl e show ?thesis
        by (simp add: iteration_def select_def sched_step_def eval_nat_numeral make_slice_def)
    next
      case False
      with pc rdy nf dl e show ?thesis
        by (simp add: iteration_def select_def sched_step_def eval_nat_numeral make_slice_def)
    qed
  qed
  have D: "written (pool s) = []" if "sent acts = []"
  proof (cases "pc s = L95")
    case True
    with r(1) show ?thesis by (simp add: fresh_def)
  next
    case False
    from init_flow[OF assms] that have "concat (written (pool s)) = []"
      by (simp add: flowed_def)
    moreover from r(2) False have "[] \<notin> set (written (pool s))" by (simp add: nonempty_def)
    ultimately show ?thesis by (rule concat_empty_nonempty)
  qed
  from mono A B C D show ?thesis by blast
qed

theorem timer_iteration_witness:
  "(\<exists>s0 s s'. demo_writer 2 = Inr s0 \<and> exec double_cap trace_wait s0 = Some s
       \<and> pc s = L108 \<and> timer s = 0 \<and> last_flush s = 1500 \<and> now s = 1600
       \<and> timer s + 1000 \<le> now s \<and> now s - last_flush s \<le> maxDuration
       \<and> elems (batch s) = [SpanAndTenant 1 ''a'']
       \<and> select double_cap SelTimer s = Some (s\<lparr>timer := 1600, pc := L118\<rparr>)
       \<and> iteration double_cap SelTimer s = Some s'
       \<and> pool s' = [] \<and> batch s' = batch s \<and> timer s' = 1600 \<and> last_flush s' = 1500
       \<and> numWritesWithFlushInterval (proc s') = 0)
   \<and> (\<exists>s0 s s'. demo_writer 2 = Inr s0 \<and> exec double_cap trace_late s0 = Some s
       \<and> pc s = L118 \<and> timer s = 1600 \<and> last_flush s = 1500 \<and> now s = 2550
       \<and> now s - last_flush s \<le> maxDuration
       \<and> elems (batch s) = [SpanAndTenant 1 ''a'']
       \<and> to_loop_top 6 s = Some s'
       \<and> pool s' = [WriteBatch [SpanAndTenant 1 ''a'']] \<and> elems (batch s') = []
       \<and> last_flush s' = 2550 \<and> timer s' = 1600
       \<and> numWritesWithFlushInterval (proc s') = 1 \<and> numWritesWithBatchSize (proc s') = 0)
   \<and> (\<exists>s0 s. demo_writer 2 = Inr s0 \<and> exec double_cap trace_idle s0 = Some s
       \<and> sent trace_idle = [] \<and> now s = 5000 \<and> written (pool s) = [])"
proof -
  let ?n = "demo_writer 2"
  have a: "NewSpanWriter process_start 0 ''idx'' ''spans'' ''dflt'' EncodingJSON 1000 2 10
             = Inr (projr ?n)"
    by (simp add: run_simps)
  let ?e = "exec double_cap trace_wait (projr ?n)"
  have b: "?e = Some (the ?e)"
    by (simp add: run_simps trace_wait_def)
  have c: "pc (the ?e) = L108" "timer (the ?e) = 0" "last_flush (the ?e) = 1500"
    "now (the ?e) = 1600" "elems (batch (the ?e)) = [SpanAndTenant 1 ''a'']"
    "pool (the ?e) = []" "numWritesWithFlushInterval (proc (the ?e)) = 0"
    by (simp_all add: run_simps trace_wait_def)
  have c2: "timer (the ?e) + 1000 \<le> now (the ?e)"
    "now (the ?e) - last_flush (the ?e) \<le> maxDuration"
    by (simp_all add: c maxDuration_def)
  let ?f = "exec double_cap trace_late (projr ?n)"
  have b': "?f = Some (the ?f)"
    by (simp add: run_simps trace_late_def trace_wait_def)
  have c': "pc (the ?f) = L118" "timer (the ?f) = 1600" "last_flush (the ?f) = 1500"
    "now (the ?f) = 2550" "elems (batch (the ?f)) = [SpanAndTenant 1 ''a'']"
    "pool (the ?f) = []" "numWritesWithFlushInterval (proc (the ?f)) = 0"
    "numWritesWithBatchSize (proc (the ?f)) = 0"
    by (simp_all add: run_simps trace_late_def trace_wait_def)
  have c2': "now (the ?f) - last_flush (the ?f) \<le> maxDuration"
    by (simp add: c' maxDuration_def)
  let ?h = "exec double_cap trace_idle (projr ?n)"
  have b'': "?h = Some (the ?h)"
    by (simp add: run_simps trace_idle_def)
  have c'': "sent trace_idle = []" "now (the ?h) = 5000"
    by (simp_all add: run_simps trace_idle_def)
  from timer_iteration[OF a b] c c2
  have 1: "select double_cap SelTimer (the ?e) = Some ((the ?e)\<lparr>timer := 1600, pc := L118\<rparr>)"
    "\<exists>s'. iteration double_cap SelTimer (the ?e) = Some s'
       \<and> pool s' = [] \<and> batch s' = batch (the ?e) \<and> timer s' = 1600 \<and> last_flush s' = 1500
       \<and> numWritesWithFlushInterval (proc s') = 0"
    by auto
  from timer_iteration[OF a b'] c' c2'
  have 2: "\<exists>s'. to_loop_top 6 (the ?f) = Some s'
       \<and> pool s' = [WriteBatch [SpanAndTenant 1 ''a'']] \<and> elems (batch s') = []
       \<and> last_flush s' = 2550 \<and> timer s' = 1600
       \<and> numWritesWithFlushInterval (proc s') = 1 \<and> numWritesWithBatchSize (proc s') = 0"
    by auto
  from timer_iteration[OF a b''] c''
  have 3: "written (pool (the ?h)) = []"
    by auto
  from 1 2 3 a b c c2 b' c' c2' b'' c'' show ?thesis
    unfolding demo_writer_def by blast
qed

section \<open>The counters\<close>

lemma sched_step_only_size:
  assumes "sched_step s = Some s'" "only_size s" shows "only_size s'"
  using assms
  by (cases "pc s")
     (auto simp: sched_step_def only_size_def make_slice_def written_append split: if_splits)

lemma recv_span_only_size:
  assumes "bounded s" "only_size s" "pc s = L108"
  shows "only_size (recv_span g x s)"
  using assms
  by (auto simp: bounded_def only_size_def recv_span_def Let_def append_slice_def)

lemma step_only_size:
  assumes "step g a s = Some s'" "a \<noteq> Select SelTimer" "a \<noteq> Select SelFinish"
    "bounded s" "only_size s"
  shows "only_size s'"
  using assms
proof (cases rule: step_cases)
  case (handoff md sp)
  then show ?thesis using recv_span_only_size[OF assms(4,5)] by simp
next
  case (recv x rest)
  have "bounded (s\<lparr>spans := rest\<rparr>)" "only_size (s\<lparr>spans := rest\<rparr>)"
    using assms(4,5) by (auto simp: bounded_def only_size_def)
  then show ?thesis using recv recv_span_only_size[of "s\<lparr>spans := rest\<rparr>" g x] by simp
next
  case sched
  then show ?thesis using assms(5) sched_step_only_size by blast
next
  case closer
  then show ?thesis using assms(5) Close_step_only_closer[of s s'] by (auto simp: only_size_def)
qed (auto simp: only_size_def)

lemma sched_step_size_counted:
  assumes "sched_step s = Some s'" "bounded s" "size_counted c0 s" shows "size_counted c0 s'"
  using assms
  by (cases "pc s")
     (auto simp: sched_step_def size_counted_def bounded_def make_slice_def written_append
        split: if_splits)

lemma recv_span_size_counted:
  assumes "bounded s" "size_counted c0 s" "pc s = L108"
  shows "size_counted c0 (recv_span g x s)"
  using assms
  by (auto simp: bounded_def size_counted_def recv_span_def Let_def append_slice_def)

lemma step_size_counted:
  assumes "step g a s = Some s'" "bounded s" "size_counted c0 s"
  shows "size_counted c0 s'"
  using assms
proof (cases rule: step_cases)
  case (handoff md sp)
  then show ?thesis using recv_span_size_counted[OF assms(2,3)] by simp
next
  case (recv x rest)
  have "bounded (s\<lparr>spans := rest\<rparr>)" "size_counted c0 (s\<lparr>spans := rest\<rparr>)"
    using assms(2,3) by (auto simp: bounded_def size_counted_def)
  then show ?thesis using recv recv_span_size_counted[of "s\<lparr>spans := rest\<rparr>" c0 g x] by simp
next
  case sched
  then show ?thesis using assms(2,3) sched_step_size_counted by blast
next
  case closer
  then show ?thesis using assms(3) Close_step_only_closer[of s s']
    by (auto simp: size_counted_def)
next
  case fin
  then show ?thesis using assms(2,3) by (auto simp: size_counted_def bounded_def)
qed (auto simp: size_counted_def)

lemma step_interval_frozen:
  assumes "step g a s = Some s'" "a \<noteq> Select SelTimer" "interval_frozen c1 s"
  shows "interval_frozen c1 s'"
  using assms
proof (cases rule: step_cases)
  case sched
  then show ?thesis using assms(3)
    by (cases "pc s") (auto simp: sched_step_def interval_frozen_def split: if_splits)
next
  case closer
  then show ?thesis using assms(3) Close_step_only_closer[of s s']
    by (auto simp: interval_frozen_def)
qed (auto simp: interval_frozen_def recv_span_def Let_def)

section \<open>The span iteration\<close>

lemma length_concat_uniform:
  "\<forall>w \<in> set ws. length w = n \<Longrightarrow> length (concat ws) = n * length ws"
  by (induction ws) auto

lemma single_full_batch:
  assumes "concat ws @ es = xs" "\<forall>w \<in> set ws. length w = n" "length es < n" "length xs = n"
  shows "ws = [xs] \<and> es = []"
proof -
  from assms(1) have "length (concat ws) + length es = length xs" by (metis length_append)
  with length_concat_uniform[OF assms(2)] assms(4)
  have e: "n * length ws + length es = n" by simp
  have k: "length ws = 1"
  proof (cases "length ws")
    case 0
    with e assms(3) show ?thesis by simp
  next
    case (Suc k)
    with e have "n * k + length es = 0" by simp
    with assms(3) have "k = 0" by auto
    with Suc show ?thesis by simp
  qed
  with e have es: "es = []" by simp
  from k obtain w where "ws = [w]" by (cases ws) auto
  with assms(1) es show ?thesis by simp
qed

lemma no_close_map: "PoolClose \<notin> set cs \<Longrightarrow> cs = map WriteBatch (written cs)"
  by (induction cs rule: written.induct) auto

lemma reach_counts:
  assumes "NewSpanWriter p t it st tn en dl sz mx = Inr s0" "exec g acts s0 = Some s" "1 \<le> sz"
  shows "size_counted (numWritesWithBatchSize (proc s0)) s"
    "Select SelTimer \<notin> set acts \<Longrightarrow> interval_frozen (numWritesWithFlushInterval (proc s0)) s"
    "Select SelTimer \<notin> set acts \<Longrightarrow> Select SelFinish \<notin> set acts \<Longrightarrow> only_size s"
proof -
  note i = NewSpanWriter_Inr[OF assms(1)]
  let ?c0 = "numWritesWithBatchSize (proc s0)"
  let ?I = "\<lambda>u. bounded u \<and> w_size u = sz \<and> size_counted ?c0 u"
  have "?I s"
  proof (rule exec_invariant[OF assms(2), where I = ?I])
    show "?I s0" by (simp add: bounded_def size_counted_def i)
    show "\<forall>a\<in>set acts. \<forall>u u'. step g a u = Some u' \<longrightarrow> ?I u \<longrightarrow> ?I u'"
    proof (intro ballI allI impI)
      fix a and u u' :: "'a sys" assume st: "step g a u = Some u'" and I: "?I u"
      from I assms(3) have "1 \<le> w_size u" by simp
      from step_bounded[OF st this] step_const[OF st] step_size_counted[OF st] I
      show "?I u'" by simp
    qed
  qed
  then show "size_counted ?c0 s" by simp
  show "interval_frozen (numWritesWithFlushInterval (proc s0)) s"
    if nt: "Select SelTimer \<notin> set acts"
  proof (rule exec_invariant[OF assms(2)])
    show "interval_frozen (numWritesWithFlushInterval (proc s0)) s0"
      by (simp add: interval_frozen_def i)
    show "\<forall>a\<in>set acts. \<forall>u u'. step g a u = Some u' \<longrightarrow>
        interval_frozen (numWritesWithFlushInterval (proc s0)) u \<longrightarrow>
        interval_frozen (numWritesWithFlushInterval (proc s0)) u'"
      using nt step_interval_frozen by blast
  qed
  show "only_size s" if nt: "Select SelTimer \<notin> set acts" and nf: "Select SelFinish \<notin> set acts"
  proof -
    let ?J = "\<lambda>u. bounded u \<and> w_size u = sz \<and> only_size u"
    have "?J s"
    proof (rule exec_invariant[OF assms(2), where I = ?J])
      show "?J s0" by (simp add: bounded_def only_size_def i)
      show "\<forall>a\<in>set acts. \<forall>u u'. step g a u = Some u' \<longrightarrow> ?J u \<longrightarrow> ?J u'"
      proof (intro ballI allI impI)
        fix a u u' assume a: "a \<in> set acts" and st: "step g a u = Some u'" and J: "?J u"
        from J assms(3) have "1 \<le> w_size u" by simp
        moreover from a nt nf have "a \<noteq> Select SelTimer" "a \<noteq> Select SelFinish" by auto
        ultimately show "?J u'"
          using step_bounded[OF st] step_const[OF st] step_only_size[OF st] J by simp
      qed
    qed
    then show ?thesis by simp
  qed
qed

text \<open>
  C3. For a new writer with \<open>w.size \<ge> 1\<close>, in any state it can reach. First, when the
  select receives a span, the iteration appends it and flushes if and only if the batch
  has then \<open>w.size\<close> elements; the flushed batch is the old content followed by the span,
  the size counter goes up by one exactly then, and the interval counter stays. Second,
  when as many spans as \<open>w.size\<close> were sent, no timer case and no finish case was taken,
  and the goroutine has received them all and is back between iterations, then exactly
  one batch was handed to the pool, it is the spans sent in the order of sending, the
  size counter is one above its value at construction and the interval counter is
  unchanged. With \<open>w.size = 3\<close> and spans A, B, C this is the single flush of [A, B, C].
\<close>

theorem size_flush:
  assumes "NewSpanWriter p t it st tn en dl sz mx = Inr s0" "1 \<le> sz"
    and "exec g acts s0 = Some s"
  shows "(\<forall>x rest. pc s = L108 \<and> spans s = x # rest \<longrightarrow>
            (\<exists>s'. iteration g SelSpan s = Some s' \<and> pc s' = L103 \<and> spans s' = rest
               \<and> numWritesWithFlushInterval (proc s') = numWritesWithFlushInterval (proc s)
               \<and> (if int (length (elems (batch s))) + 1 = sz
                   then pool s' = pool s @ [WriteBatch (elems (batch s) @ [x])]
                      \<and> elems (batch s') = []
                      \<and> numWritesWithBatchSize (proc s') = numWritesWithBatchSize (proc s) + 1
                   else pool s' = pool s \<and> elems (batch s') = elems (batch s) @ [x]
                      \<and> numWritesWithBatchSize (proc s') = numWritesWithBatchSize (proc s))))
    \<and> (Select SelTimer \<notin> set acts \<and> Select SelFinish \<notin> set acts
         \<and> int (length (sent acts)) = sz \<and> spans s = [] \<and> (pc s = L103 \<or> pc s = L108) \<longrightarrow>
           pool s = [WriteBatch (sent acts)]
         \<and> numWritesWithBatchSize (proc s) = numWritesWithBatchSize (proc s0) + 1
         \<and> numWritesWithFlushInterval (proc s) = numWritesWithFlushInterval (proc s0))"
proof -
  note r = reach[OF assms(1,3)]
  note b = r(5)[OF assms(2)]
  have A: "\<exists>s'. iteration g SelSpan s = Some s' \<and> pc s' = L103 \<and> spans s' = rest
               \<and> numWritesWithFlushInterval (proc s') = numWritesWithFlushInterval (proc s)
               \<and> (if int (length (elems (batch s))) + 1 = sz
                   then pool s' = pool s @ [WriteBatch (elems (batch s) @ [x])]
                      \<and> elems (batch s') = []
                      \<and> numWritesWithBatchSize (proc s') = numWritesWithBatchSize (proc s) + 1
                   else pool s' = pool s \<and> elems (batch s') = elems (batch s) @ [x]
                      \<and> numWritesWithBatchSize (proc s') = numWritesWithBatchSize (proc s))"
    if pc: "pc s = L108" and sp: "spans s = x # rest" for x rest
  proof -
    from r(3) pc have nf: "\<not> finish s" by (simp add: ctl_defs)
    from b pc r(4) have c: "cap (batch s) = nat sz" "length (elems (batch s)) < nat sz"
      by (simp_all add: bounded_def)
    show ?thesis
    proof (cases "int (length (elems (batch s))) + 1 = sz")
      case True
      then have "Suc (length (elems (batch s))) = nat sz" by linarith
      with pc sp nf c r(4) True show ?thesis
        by (simp add: iteration_def select_def recv_span_def append_slice_def Let_def
            sched_step_def eval_nat_numeral make_slice_def)
    next
      case False
      then have "Suc (length (elems (batch s))) \<noteq> nat sz" by linarith
      with pc sp nf c r(4) False show ?thesis
        by (simp add: iteration_def select_def recv_span_def append_slice_def Let_def
            sched_step_def eval_nat_numeral make_slice_def)
    qed
  qed
  have B: "pool s = [WriteBatch (sent acts)]
         \<and> numWritesWithBatchSize (proc s) = numWritesWithBatchSize (proc s0) + 1
         \<and> numWritesWithFlushInterval (proc s) = numWritesWithFlushInterval (proc s0)"
    if nt: "Select SelTimer \<notin> set acts" and nf: "Select SelFinish \<notin> set acts"
      and len: "int (length (sent acts)) = sz" and q: "spans s = []"
      and pc: "pc s = L103 \<or> pc s = L108"
  proof -
    note c = reach_counts[OF assms(1,3,2)]
    from init_flow[OF assms(1,3)] q
    have fl: "concat (written (pool s)) @ elems (batch s) = sent acts"
      by (simp add: flowed_def)
    from c(3)[OF nt nf] pc r(4)
    have full: "\<forall>w \<in> set (written (pool s)). length w = nat sz"
      by (auto simp: only_size_def)
    from b pc r(4) have short: "length (elems (batch s)) < nat sz"
      by (auto simp: bounded_def)
    from len have "length (sent acts) = nat sz" by simp
    from single_full_batch[OF fl full short this]
    have w: "written (pool s) = [sent acts]" by simp
    from r(3) pc have "PoolClose \<notin> set (pool s)" by (auto simp: ctl_defs)
    from no_close_map[OF this] w have 1: "pool s = [WriteBatch (sent acts)]" by simp
    from c(1) pc w r(4) \<open>length (sent acts) = nat sz\<close>
    have 2: "numWritesWithBatchSize (proc s) = numWritesWithBatchSize (proc s0) + 1"
      by (auto simp: size_counted_def)
    from c(2)[OF nt]
    have 3: "numWritesWithFlushInterval (proc s) = numWritesWithFlushInterval (proc s0)"
      by (simp add: interval_frozen_def)
    from 1 2 3 show ?thesis by simp
  qed
  from A B show ?thesis by blast
qed

theorem size_flush_witness:
  "(\<exists>s0 s s'. demo_writer 3 = Inr s0 \<and> (1::int) \<le> 3 \<and> exec double_cap trace_third s0 = Some s
       \<and> pc s = L108 \<and> spans s = [SpanAndTenant 3 ''b'']
       \<and> elems (batch s) = [SpanAndTenant 1 ''a'', SpanAndTenant 2 ''a'']
       \<and> iteration double_cap SelSpan s = Some s'
       \<and> pool s' = [WriteBatch [SpanAndTenant 1 ''a'', SpanAndTenant 2 ''a'', SpanAndTenant 3 ''b'']]
       \<and> numWritesWithBatchSize (proc s') = 1 \<and> numWritesWithFlushInterval (proc s') = 0)
   \<and> (\<exists>s0 s. demo_writer 3 = Inr s0 \<and> exec double_cap trace_three s0 = Some s
       \<and> Select SelTimer \<notin> set trace_three \<and> Select SelFinish \<notin> set trace_three
       \<and> sent trace_three = [SpanAndTenant 1 ''a'', SpanAndTenant 2 ''a'', SpanAndTenant 3 ''b'']
       \<and> spans s = [] \<and> pc s = L103
       \<and> pool s = [WriteBatch [SpanAndTenant 1 ''a'', SpanAndTenant 2 ''a'', SpanAndTenant 3 ''b'']]
       \<and> numWritesWithBatchSize (proc s) = 1 \<and> numWritesWithFlushInterval (proc s) = 0)"
proof -
  let ?n = "demo_writer 3"
  have a: "NewSpanWriter process_start 0 ''idx'' ''spans'' ''dflt'' EncodingJSON 1000 3 10
             = Inr (projr ?n)"
    by (simp add: run_simps)
  have z: "numWritesWithBatchSize (proc (projr ?n)) = 0"
    "numWritesWithFlushInterval (proc (projr ?n)) = 0"
    by (simp_all add: run_simps)
  have d: "(1::int) \<le> 3" by simp
  let ?e = "exec double_cap trace_third (projr ?n)"
  have b: "?e = Some (the ?e)"
    by (simp add: run_simps trace_third_def)
  have c: "pc (the ?e) = L108" "spans (the ?e) = [SpanAndTenant 3 ''b'']"
    "elems (batch (the ?e)) = [SpanAndTenant 1 ''a'', SpanAndTenant 2 ''a'']"
    "pool (the ?e) = []" "numWritesWithBatchSize (proc (the ?e)) = 0"
    "numWritesWithFlushInterval (proc (the ?e)) = 0"
    by (simp_all add: run_simps trace_third_def)
  let ?f = "exec double_cap trace_three (projr ?n)"
  have b': "?f = Some (the ?f)"
    by (simp add: run_simps trace_three_def trace_third_def)
  have c': "spans (the ?f) = []" "pc (the ?f) = L103"
    "Select SelTimer \<notin> set trace_three" "Select SelFinish \<notin> set trace_three"
    "sent trace_three = [SpanAndTenant 1 ''a'', SpanAndTenant 2 ''a'', SpanAndTenant 3 ''b'']"
    by (simp_all add: run_simps trace_three_def trace_third_def)
  from size_flush[OF a d b] c
  have 1: "\<exists>s'. iteration double_cap SelSpan (the ?e) = Some s'
       \<and> pool s' = [WriteBatch [SpanAndTenant 1 ''a'', SpanAndTenant 2 ''a'', SpanAndTenant 3 ''b'']]
       \<and> numWritesWithBatchSize (proc s') = 1 \<and> numWritesWithFlushInterval (proc s') = 0"
    by auto
  from size_flush[OF a d b'] c' z
  have 2: "pool (the ?f) = [WriteBatch [SpanAndTenant 1 ''a'', SpanAndTenant 2 ''a'', SpanAndTenant 3 ''b'']]
       \<and> numWritesWithBatchSize (proc (the ?f)) = 1
       \<and> numWritesWithFlushInterval (proc (the ?f)) = 0"
    by auto
  from 1 2 a b c b' c' d show ?thesis
    unfolding demo_writer_def by blast
qed

section \<open>The result of WriteSpan\<close>

lemma Exited_full_stays:
  assumes "step g a s = Some s'" "pc s = Exited" "\<not> int (length (spans s)) < w_size s"
  shows "pc s' = Exited \<and> spans s' = spans s \<and> w_size s' = w_size s"
  using assms
  by (cases rule: step_cases) (auto simp: sched_step_def dest: Close_step_only_closer)

lemma WriteSpan_Blocked_iff:
  "WriteSpan g w c sp = Blocked \<longleftrightarrow>
     c \<noteq> None \<and> \<not> int (length (spans w)) < w_size w \<and> \<not> (pc w = L108 \<and> spans w = [])"
  by (cases c) (auto simp: WriteSpan_None WriteSpan_Some return_nil_def chan_send_def)

text \<open>
  C8. \<open>WriteSpan\<close> never returns an error: whatever the writer, the context and the span,
  the call either returns nil or is blocked in its channel send. It is blocked exactly
  when the context has metadata, the buffer has no room and the goroutine does not wait
  in the select on an empty buffer. Once the goroutine has exited and the buffer is
  full, such a call stays blocked in every continuation: it does not return at all.
\<close>

theorem WriteSpan_never_errors:
  "(\<forall>e w'. WriteSpan g w c sp \<noteq> Returned (Some e, w'))
   \<and> (WriteSpan g w c sp = Blocked \<longleftrightarrow>
        c \<noteq> None \<and> \<not> int (length (spans w)) < w_size w \<and> \<not> (pc w = L108 \<and> spans w = []))
   \<and> (pc w = Exited \<and> c \<noteq> None \<and> \<not> int (length (spans w)) < w_size w \<longrightarrow>
        (\<forall>acts w'. exec g acts w = Some w' \<longrightarrow> WriteSpan g w' c sp = Blocked))"
proof -
  have 1: "\<forall>e w'. WriteSpan g w c sp \<noteq> Returned (Some e, w')"
    by (cases c) (auto simp: WriteSpan_None WriteSpan_Some return_nil_def split: call.splits)
  have 3: "WriteSpan g w' c sp = Blocked"
    if h: "pc w = Exited" "c \<noteq> None" "\<not> int (length (spans w)) < w_size w"
      and ex: "exec g acts w = Some w'" for acts w'
  proof -
    let ?I = "\<lambda>u. pc u = Exited \<and> spans u = spans w \<and> w_size u = w_size w"
    have "?I w'"
    proof (rule exec_invariant[OF ex, where I = ?I])
      show "?I w" using h by simp
      show "\<forall>a\<in>set acts. \<forall>u u'. step g a u = Some u' \<longrightarrow> ?I u \<longrightarrow> ?I u'"
        using Exited_full_stays h(3) by metis
    qed
    with h show ?thesis by (simp add: WriteSpan_Blocked_iff)
  qed
  from 1 WriteSpan_Blocked_iff[of g w c sp] 3 show ?thesis by blast
qed

theorem WriteSpan_never_errors_witness:
  "closed_run = Some (the closed_run) \<and> pc (the closed_run) = Exited
   \<and> (Some (md_of [''b'']) :: ctx) \<noteq> None
   \<and> \<not> int (length (spans (the closed_run))) < w_size (the closed_run)
   \<and> exec double_cap [Tau 7, Producer None 3] (the closed_run)
        = Some ((the closed_run)\<lparr>now := 7\<rparr>)
   \<and> WriteSpan double_cap ((the closed_run)\<lparr>now := 7\<rparr>) (Some (md_of [''b''])) 2 = Blocked
   \<and> WriteSpan double_cap (the closed_run) None 2 = Returned (None, the closed_run)"
proof -
  have a: "closed_run = Some (the closed_run)" "pc (the closed_run) = Exited"
    "\<not> int (length (spans (the closed_run))) < w_size (the closed_run)"
    "(Some (md_of [''b'']) :: ctx) \<noteq> None"
    by (simp_all add: closed_run_def trace_closed_def run_simps)
  have b: "exec double_cap [Tau 7, Producer None 3] (the closed_run)
        = Some ((the closed_run)\<lparr>now := 7\<rparr>)"
    by (simp add: closed_run_def trace_closed_def run_simps)
  have c: "WriteSpan double_cap (the closed_run) None 2 = Returned (None, the closed_run)"
    by (simp add: WriteSpan_def FromIncomingContext_def)
  from WriteSpan_never_errors[of double_cap "the closed_run" "Some (md_of [''b''])" 2] a b c
  show ?thesis by blast
qed

text \<open>
  The claim that \<open>WriteSpan\<close> returns success for every context and span fails here: the
  writer of capacity 1 has been closed, its goroutine has exited, one span fills the
  buffer, and the next call with metadata does not return.
\<close>

theorem WriteSpan_blocks_counterexample:
  "demo_writer 1 = Inr (projr (demo_writer 1))
   \<and> closed_run = Some (the closed_run)
   \<and> pc (the closed_run) = Exited \<and> closer (the closed_run) = CloseReturned None
   \<and> spans (the closed_run) = [SpanAndTenant 1 ''a''] \<and> w_size (the closed_run) = 1
   \<and> WriteSpan double_cap (the closed_run) (Some (md_of [''b''])) 2 = Blocked"
  by (simp add: closed_run_def trace_closed_def run_simps)

section \<open>Close\<close>

lemma concat_single_nonempty:
  assumes "concat ws = [x]" "[] \<notin> set ws" shows "ws = [[x]]"
proof (cases ws)
  case Nil
  with assms show ?thesis by simp
next
  case (Cons w rest)
  with assms have w: "w \<noteq> []" by auto
  with assms Cons have "w = [x]" "concat rest = []"
    by (auto simp: append_eq_Cons_conv)
  moreover from assms(2) Cons have "[] \<notin> set rest" by simp
  ultimately show ?thesis using Cons concat_empty_nonempty by blast
qed

lemma written_snoc_close: "written (cs @ [PoolClose]) = written cs"
  by (simp add: written_append)

text \<open>
  C2. For every state that a new writer can reach. \<open>pool.Close()\<close> is called only after
  the select has taken the finish signal, and it is the goroutine that calls it, inside
  the finish iteration: when the wait group counter is back at zero after the signal,
  the call has been made. When \<open>Close\<close> has returned, it has returned nil; the goroutine
  is past line 139; \<open>pool.Close()\<close> has returned, as the last call on the pool and the
  only one of its kind; no batch is in progress; and every span sent is in a batch
  handed to the pool before \<open>pool.Close()\<close> or still in the channel buffer. If one span A
  was sent and the buffer is empty, the calls on the pool are the flush of [A] and
  \<open>pool.Close()\<close>, and with no timer case taken and a capacity of two or more neither
  counter has moved: the flush was the one of the shutdown.
\<close>

theorem Close_returns_after_pool_close:
  assumes "NewSpanWriter p t it st tn en dl sz mx = Inr s0" "exec g acts s0 = Some s"
  shows "(PoolClose \<in> set (pool s) \<longrightarrow> closer s = L164 \<or> closer s = CloseReturned None)
    \<and> (closer s = L164 \<and> w_done s = 0 \<longrightarrow> PoolClose \<in> set (pool s))
    \<and> (\<forall>r. closer s = CloseReturned r \<longrightarrow>
          r = None \<and> (pc s = L141 \<or> pc s = Exited) \<and> w_done s = 0
        \<and> (\<exists>cs. pool s = cs @ [PoolClose] \<and> PoolClose \<notin> set cs)
        \<and> elems (batch s) = []
        \<and> concat (written (pool s)) @ spans s = sent acts
        \<and> (\<forall>A. sent acts = [A] \<and> spans s = [] \<longrightarrow>
              pool s = [WriteBatch [A], PoolClose]
            \<and> (Select SelTimer \<notin> set acts \<and> 2 \<le> sz \<longrightarrow>
                 numWritesWithBatchSize (proc s) = numWritesWithBatchSize (proc s0)
               \<and> numWritesWithFlushInterval (proc s) = numWritesWithFlushInterval (proc s0))))"
proof -
  note r = reach[OF assms]
  have 1: "closer s = L164 \<or> closer s = CloseReturned None" if "PoolClose \<in> set (pool s)"
    using that r(1,3) by (cases "pc s") (auto simp: ctl_defs fresh_def)
  have 2: "PoolClose \<in> set (pool s)" if "closer s = L164" "w_done s = 0"
  proof -
    from that r(3) have "pool_closed s" by (cases "pc s") (auto simp: ctl_defs)
    then have "pool s \<noteq> []" "last (pool s) = PoolClose" by (simp_all add: pool_closed_def)
    then show ?thesis using last_in_set by metis
  qed
  have 3: "r = None \<and> (pc s = L141 \<or> pc s = Exited) \<and> w_done s = 0
        \<and> (\<exists>cs. pool s = cs @ [PoolClose] \<and> PoolClose \<notin> set cs)
        \<and> elems (batch s) = []
        \<and> concat (written (pool s)) @ spans s = sent acts
        \<and> (\<forall>A. sent acts = [A] \<and> spans s = [] \<longrightarrow>
              pool s = [WriteBatch [A], PoolClose]
            \<and> (Select SelTimer \<notin> set acts \<and> 2 \<le> sz \<longrightarrow>
                 numWritesWithBatchSize (proc s) = numWritesWithBatchSize (proc s0)
               \<and> numWritesWithFlushInterval (proc s) = numWritesWithFlushInterval (proc s0)))"
    if ret: "closer s = CloseReturned r" for r
  proof -
    from ret r(3) have c: "r = None" "pc s = L141 \<or> pc s = Exited" "w_done s = 0" "pool_closed s"
      by (cases "pc s"; auto simp: ctl_defs)+
    from c(4) have pcl: "pool s = butlast (pool s) @ [PoolClose]"
      "PoolClose \<notin> set (butlast (pool s))" "elems (batch s) = []"
      by (auto simp: pool_closed_def dest: append_butlast_last_id)
    from init_flow[OF assms] pcl(3)
    have fl: "concat (written (pool s)) @ spans s = sent acts" by (simp add: flowed_def)
    have one: "pool s = [WriteBatch [A], PoolClose]
            \<and> (Select SelTimer \<notin> set acts \<and> 2 \<le> sz \<longrightarrow>
                 numWritesWithBatchSize (proc s) = numWritesWithBatchSize (proc s0)
               \<and> numWritesWithFlushInterval (proc s) = numWritesWithFlushInterval (proc s0))"
      if A: "sent acts = [A]" "spans s = []" for A
    proof -
      from fl A have "concat (written (pool s)) = [A]" by simp
      moreover from r(2) c(2) have "[] \<notin> set (written (pool s))" by (auto simp: nonempty_def)
      ultimately have w: "written (pool s) = [[A]]" by (rule concat_single_nonempty)
      with pcl(1) have "written (butlast (pool s)) = [[A]]"
        by (metis written_snoc_close)
      with no_close_map[OF pcl(2)] have "butlast (pool s) = [WriteBatch [A]]" by simp
      with pcl(1) have p: "pool s = [WriteBatch [A], PoolClose]" by simp
      have "numWritesWithBatchSize (proc s) = numWritesWithBatchSize (proc s0)
               \<and> numWritesWithFlushInterval (proc s) = numWritesWithFlushInterval (proc s0)"
        if nt: "Select SelTimer \<notin> set acts" and sz: "2 \<le> sz"
      proof -
        from sz have "1 \<le> sz" by simp
        note k = reach_counts[OF assms this]
        from k(1) c(2) w r(4) sz
        have "numWritesWithBatchSize (proc s) = numWritesWithBatchSize (proc s0)"
          by (auto simp: size_counted_def)
        moreover from k(2)[OF nt]
        have "numWritesWithFlushInterval (proc s) = numWritesWithFlushInterval (proc s0)"
          by (simp add: interval_frozen_def)
        ultimately show ?thesis by simp
      qed
      with p show ?thesis by simp
    qed
    from c(1-3) pcl fl one show ?thesis by blast
  qed
  from 1 2 3 show ?thesis by blast
qed

theorem Close_returns_after_pool_close_witness:
  "\<exists>s0 s. demo_writer 2 = Inr s0 \<and> exec double_cap trace_drained s0 = Some s
     \<and> closer s = CloseReturned None
     \<and> sent trace_drained = [SpanAndTenant 1 ''a''] \<and> spans s = []
     \<and> Select SelTimer \<notin> set trace_drained \<and> (2::int) \<le> 2
     \<and> pool s = [WriteBatch [SpanAndTenant 1 ''a''], PoolClose]
     \<and> numWritesWithBatchSize (proc s) = 0 \<and> numWritesWithFlushInterval (proc s) = 0"
proof -
  let ?n = "demo_writer 2"
  have a: "NewSpanWriter process_start 0 ''idx'' ''spans'' ''dflt'' EncodingJSON 1000 2 10
             = Inr (projr ?n)"
    by (simp add: run_simps)
  have z: "numWritesWithBatchSize (proc (projr ?n)) = 0"
    "numWritesWithFlushInterval (proc (projr ?n)) = 0"
    by (simp_all add: run_simps)
  let ?e = "exec double_cap trace_drained (projr ?n)"
  have b: "?e = Some (the ?e)"
    by (simp add: run_simps trace_drained_def)
  have c: "closer (the ?e) = CloseReturned None" "spans (the ?e) = []"
    "sent trace_drained = [SpanAndTenant 1 ''a'']" "Select SelTimer \<notin> set trace_drained"
    "(2::int) \<le> 2"
    by (simp_all add: run_simps trace_drained_def)
  from Close_returns_after_pool_close[OF a b] c z
  have "pool (the ?e) = [WriteBatch [SpanAndTenant 1 ''a''], PoolClose]
     \<and> numWritesWithBatchSize (proc (the ?e)) = 0
     \<and> numWritesWithFlushInterval (proc (the ?e)) = 0"
    by auto
  with a b c show ?thesis
    unfolding demo_writer_def by blast
qed

text \<open>
  The claim fails on \<open>trace_lost\<close>. After eight steps \<open>pool.Close()\<close> has been called while
  \<open>Close\<close> is still waiting on the wait group, whose counter is 1: \<open>Close\<close> does not call
  it after the wait. After ten steps \<open>Close\<close> has returned, span A has been sent before
  \<open>Close\<close> was called, and no batch was handed to the pool: A is still in the buffer.
\<close>

theorem Close_loses_queued_span_counterexample:
  "demo_writer 2 = Inr (projr (demo_writer 2))
   \<and> sent trace_lost = [SpanAndTenant 1 ''a'']
   \<and> lost_run 8 = Some (the (lost_run 8))
   \<and> pool (the (lost_run 8)) = [PoolClose] \<and> closer (the (lost_run 8)) = L164
   \<and> w_done (the (lost_run 8)) = 1
   \<and> lost_run 10 = Some (the (lost_run 10))
   \<and> closer (the (lost_run 10)) = CloseReturned None
   \<and> pool (the (lost_run 10)) = [PoolClose]
   \<and> spans (the (lost_run 10)) = [SpanAndTenant 1 ''a'']"
  by (simp add: lost_run_def trace_lost_def run_simps)

section \<open>Metadata without a tenant\<close>

lemma exec_Exited_full:
  assumes "exec g acts w = Some w'" "pc w = Exited" "\<not> int (length (spans w)) < w_size w"
  shows "pc w' = Exited \<and> spans w' = spans w \<and> w_size w' = w_size w"
proof (rule exec_invariant[OF assms(1),
      where I = "\<lambda>u. pc u = Exited \<and> spans u = spans w \<and> w_size u = w_size w"])
  show "pc w = Exited \<and> spans w = spans w \<and> w_size w = w_size w" using assms(2) by simp
  show "\<forall>a\<in>set acts. \<forall>u u'. step g a u = Some u' \<longrightarrow>
      pc u = Exited \<and> spans u = spans w \<and> w_size u = w_size w \<longrightarrow>
      pc u' = Exited \<and> spans u' = spans w \<and> w_size u' = w_size w"
    using Exited_full_stays assms(3) by metis
qed

text \<open>
  C10. When the context has metadata and \<open>x-tenant\<close> is absent or has no value,
  \<open>WriteSpan\<close> does not take the path that drops the span: the call is the channel send
  of the span with the empty tenant. With room in the buffer it queues that value and
  returns nil; with no room and the goroutine waiting in the select on an empty buffer
  the goroutine receives that value; in every other state the call is blocked, and once
  the goroutine has exited with the buffer full it stays blocked in every continuation,
  so the span is never queued. Whenever the call returns, the writer holds one tagged
  span more, that one. The default tenant given to \<open>NewSpanWriter\<close> plays no part:
  changing it changes nothing but itself.
\<close>

theorem WriteSpan_empty_tenant_list:
  assumes "md ''x-tenant'' = None \<or> md ''x-tenant'' = Some []"
  shows "WriteSpan g w (Some md) sp = return_nil (chan_send g w (SpanAndTenant sp ''''))
    \<and> (int (length (spans w)) < w_size w \<longrightarrow>
         WriteSpan g w (Some md) sp = Returned (None, w\<lparr>spans := spans w @ [SpanAndTenant sp '''']\<rparr>))
    \<and> (\<not> int (length (spans w)) < w_size w \<and> pc w = L108 \<and> spans w = [] \<longrightarrow>
         WriteSpan g w (Some md) sp = Returned (None, recv_span g (SpanAndTenant sp '''') w))
    \<and> (WriteSpan g w (Some md) sp = Blocked \<longleftrightarrow>
         \<not> int (length (spans w)) < w_size w \<and> \<not> (pc w = L108 \<and> spans w = []))
    \<and> (\<forall>e w'. WriteSpan g w (Some md) sp = Returned (e, w') \<longrightarrow>
         e = None \<and> flowed w' = flowed w @ [SpanAndTenant sp ''''])
    \<and> (pc w = Exited \<and> \<not> int (length (spans w)) < w_size w \<longrightarrow>
         (\<forall>acts w'. exec g acts w = Some w' \<longrightarrow> WriteSpan g w' (Some md) sp = Blocked))
    \<and> WriteSpan g (with_tenant tn w) (Some md) sp
         = map_call (map_prod id (with_tenant tn)) (WriteSpan g w (Some md) sp)"
proof -
  from assms have g: "md_Get md ''x-tenant'' = []" by (auto simp: md_Get_def)
  then have t: "tag md sp = SpanAndTenant sp ''''" by (simp add: tag_def)
  have 1: "WriteSpan g w (Some md) sp = return_nil (chan_send g w (SpanAndTenant sp ''''))"
    by (simp add: WriteSpan_Some t)
  have 2: "int (length (spans w)) < w_size w \<longrightarrow>
         WriteSpan g w (Some md) sp = Returned (None, w\<lparr>spans := spans w @ [SpanAndTenant sp '''']\<rparr>)"
    by (simp add: 1 chan_send_def return_nil_def)
  have 3: "\<not> int (length (spans w)) < w_size w \<and> pc w = L108 \<and> spans w = [] \<longrightarrow>
         WriteSpan g w (Some md) sp = Returned (None, recv_span g (SpanAndTenant sp '''') w)"
    by (auto simp: 1 chan_send_def return_nil_def)
  have 4: "WriteSpan g w (Some md) sp = Blocked \<longleftrightarrow>
         \<not> int (length (spans w)) < w_size w \<and> \<not> (pc w = L108 \<and> spans w = [])"
    by (simp add: WriteSpan_Blocked_iff)
  have 5: "\<forall>e w'. WriteSpan g w (Some md) sp = Returned (e, w') \<longrightarrow>
         e = None \<and> flowed w' = flowed w @ [SpanAndTenant sp '''']"
    by (auto simp: 1 chan_send_def return_nil_def flowed_def recv_span_def Let_def
        elems_append_slice split: if_splits)
  have 6: "WriteSpan g w' (Some md) sp = Blocked"
    if "pc w = Exited" "\<not> int (length (spans w)) < w_size w" "exec g acts w = Some w'"
    for acts w'
    using exec_Exited_full[OF that(3,1,2)] that(2) by (simp add: WriteSpan_Blocked_iff)
  have 7: "WriteSpan g (with_tenant tn w) (Some md) sp
         = map_call (map_prod id (with_tenant tn)) (WriteSpan g w (Some md) sp)"
    by (simp add: 1 WriteSpan_Some t chan_send_def return_nil_def with_tenant_def recv_span_def
        Let_def)
  from 1 2 3 4 5 6 7 show ?thesis by blast
qed

theorem WriteSpan_empty_tenant_list_witness:
  "(Map.empty :: MD) ''x-tenant'' = None
   \<and> (\<exists>s0. demo_writer 2 = Inr s0
        \<and> int (length (spans s0)) < w_size s0
        \<and> WriteSpan double_cap s0 (Some Map.empty) 7
            = Returned (None, s0\<lparr>spans := [SpanAndTenant 7 '''']\<rparr>)
        \<and> params_tenant (workerParams s0) = ''dflt'')
   \<and> closed_run = Some (the closed_run) \<and> pc (the closed_run) = Exited
   \<and> \<not> int (length (spans (the closed_run))) < w_size (the closed_run)
   \<and> exec double_cap [Tau 7] (the closed_run) = Some ((the closed_run)\<lparr>now := 7\<rparr>)
   \<and> WriteSpan double_cap ((the closed_run)\<lparr>now := 7\<rparr>) (Some Map.empty) 2 = Blocked"
proof -
  let ?n = "demo_writer 2"
  have a: "?n = Inr (projr ?n)" by (simp add: run_simps)
  have r: "int (length (spans (projr ?n))) < w_size (projr ?n)" by (simp add: run_simps)
  have e: "spans (projr ?n) = []" "params_tenant (workerParams (projr ?n)) = ''dflt''"
    by (simp_all add: run_simps)
  have m: "(Map.empty :: MD) ''x-tenant'' = None \<or> (Map.empty :: MD) ''x-tenant'' = Some []"
    by simp
  have k: "closed_run = Some (the closed_run)" "pc (the closed_run) = Exited"
    "\<not> int (length (spans (the closed_run))) < w_size (the closed_run)"
    "exec double_cap [Tau 7] (the closed_run) = Some ((the closed_run)\<lparr>now := 7\<rparr>)"
    by (simp_all add: closed_run_def trace_closed_def run_simps)
  from WriteSpan_empty_tenant_list[OF m, of double_cap "projr ?n" 7]
  have "int (length (spans (projr ?n))) < w_size (projr ?n) \<longrightarrow>
      WriteSpan double_cap (projr ?n) (Some Map.empty) 7
        = Returned (None, (projr ?n)\<lparr>spans := spans (projr ?n) @ [SpanAndTenant 7 '''']\<rparr>)"
    by blast
  with r have "WriteSpan double_cap (projr ?n) (Some Map.empty) 7
        = Returned (None, (projr ?n)\<lparr>spans := spans (projr ?n) @ [SpanAndTenant 7 '''']\<rparr>)"
    by blast
  then have 1: "WriteSpan double_cap (projr ?n) (Some Map.empty) 7
            = Returned (None, (projr ?n)\<lparr>spans := [SpanAndTenant 7 '''']\<rparr>)"
    by (simp only: e append_Nil)
  from WriteSpan_empty_tenant_list[OF m, of double_cap "the closed_run" 2] k
  have 2: "WriteSpan double_cap ((the closed_run)\<lparr>now := 7\<rparr>) (Some Map.empty) 2 = Blocked"
    by blast
  from 1 2 a r e k show ?thesis by blast
qed

text \<open>
  The claim that every such call enqueues the span fails here: on the closed writer of
  capacity 1 whose buffer is full, the call with metadata and no \<open>x-tenant\<close> is blocked,
  the buffer holds only the span sent before, the goroutine can take no step, and after
  time has passed the call is blocked still.
\<close>

theorem WriteSpan_empty_tenant_blocks_counterexample:
  "demo_writer 1 = Inr (projr (demo_writer 1))
   \<and> closed_run = Some (the closed_run)
   \<and> pc (the closed_run) = Exited
   \<and> (Map.empty :: MD) ''x-tenant'' = None
   \<and> WriteSpan double_cap (the closed_run) (Some Map.empty) 2 = Blocked
   \<and> spans (the closed_run) = [SpanAndTenant 1 ''a'']
   \<and> exec double_cap [Tau 7, Sched] (the closed_run) = None
   \<and> exec double_cap [Tau 7] (the closed_run) = Some ((the closed_run)\<lparr>now := 7\<rparr>)
   \<and> WriteSpan double_cap ((the closed_run)\<lparr>now := 7\<rparr>) (Some Map.empty) 2 = Blocked"
  by (simp add: closed_run_def trace_closed_def run_simps)

end
